theory Spec2Isabelle
  imports Main "HOL-Library.Word" "HOL-Library.Multiset" "HOL-Library.AList"
begin

unbundle bit_operations_syntax

section \<open>Errors and dynamically typed values\<close>

type_synonym byte = "8 word"

text \<open>
  The error values a generated method or a codec can return. The first four are the
  sentinel errors the generator's \<open>helpers\<close> table names; \<open>ErrUnexpectedEOF\<close>
  is \<open>io.ErrUnexpectedEOF\<close>; \<open>Errorf\<close> carries the text of a \<open>fmt.Errorf\<close>.
\<close>

datatype error =
    ErrInvalidLength
  | ErrIntOverflow
  | ErrUnexpectedEndOfGroup
  | ErrInvalidUTF8
  | ErrUnexpectedEOF
  | Errorf string

text \<open>
  A Go value of type \<open>interface{}\<close> as the codecs see it: its dynamic type's name
  (what \<open>%T\<close> prints) and its method set. A method the dynamic type does not have is
  \<open>None\<close>. The methods act on the state \<open>'s\<close> the value points to.
\<close>

record 's iface =
  type_name :: string
  MarshalVT :: "('s \<Rightarrow> byte list option \<times> error option) option"
  UnmarshalVT :: "(byte list \<Rightarrow> 's \<Rightarrow> error option \<times> 's) option"
  ResetVT :: "('s \<Rightarrow> 's) option"
  Reset :: "('s \<Rightarrow> 's) option"

text \<open>
  The type assertion \<open>v.(vtprotoMessage)\<close>: the interface lists \<open>MarshalVT\<close> and
  \<open>UnmarshalVT\<close>, so the assertion holds when the value has both.
\<close>

definition vtprotoMessage :: "'s iface \<Rightarrow> bool" where
  "vtprotoMessage v \<longleftrightarrow> MarshalVT v \<noteq> None \<and> UnmarshalVT v \<noteq> None"

text \<open>
  The two type assertions that choose the reset, in the order both codecs try them:
  \<open>vtprotoResetter\<close> first, \<open>protoResetter\<close> second, nothing when the value has
  neither method.
\<close>

definition reset_before_unmarshal :: "'s iface \<Rightarrow> 's \<Rightarrow> 's" where
  "reset_before_unmarshal v s =
     (case ResetVT v of
        Some r \<Rightarrow> r s
      | None \<Rightarrow> (case Reset v of Some r \<Rightarrow> r s | None \<Rightarrow> s))"

section \<open>The gRPC codec\<close>

definition grpc_Marshal :: "'s iface \<Rightarrow> 's \<Rightarrow> byte list option \<times> error option" where
  "grpc_Marshal v s =
     (if \<not> vtprotoMessage v
      then (None, Some (Errorf (''failed to marshal, message is '' @ type_name v
                                  @ '' (missing vtprotobuf helpers)'')))
      else the (MarshalVT v) s)"

definition grpc_Unmarshal :: "byte list \<Rightarrow> 's iface \<Rightarrow> 's \<Rightarrow> error option \<times> 's" where
  "grpc_Unmarshal data v s =
     (if \<not> vtprotoMessage v
      then (Some (Errorf (''failed to unmarshal, message is '' @ type_name v
                            @ '' (missing vtprotobuf helpers)'')), s)
      else the (UnmarshalVT v) data (reset_before_unmarshal v s))"

section \<open>The DRPC codec\<close>

text \<open>
  The DRPC functions assert \<open>msg.(vtprotoMessage)\<close> without the \<open>ok\<close> form, so a
  value without the two methods panics. \<open>drpc_Unmarshal\<close> resets first: the panic
  comes after the reset has already changed the target.
\<close>

datatype 'a outcome = Returned 'a | Panicked

definition drpc_Marshal :: "'s iface \<Rightarrow> 's \<Rightarrow> (byte list option \<times> error option) outcome" where
  "drpc_Marshal msg s =
     (if vtprotoMessage msg then Returned (the (MarshalVT msg) s) else Panicked)"

definition drpc_Unmarshal :: "byte list \<Rightarrow> 's iface \<Rightarrow> 's \<Rightarrow> (error option) outcome \<times> 's" where
  "drpc_Unmarshal buf msg s =
     (let s' = reset_before_unmarshal msg s in
      if vtprotoMessage msg
      then (case the (UnmarshalVT msg) buf s' of (e, s'') \<Rightarrow> (Returned e, s''))
      else (Panicked, s'))"

section \<open>The schema as the generator reads it\<close>

datatype Kind =
    BoolKind | EnumKind
  | Int32Kind | Sint32Kind | Uint32Kind
  | Int64Kind | Sint64Kind | Uint64Kind
  | Sfixed32Kind | Fixed32Kind | FloatKind
  | Sfixed64Kind | Fixed64Kind | DoubleKind
  | StringKind | BytesKind | MessageKind | GroupKind

datatype APILevel = API_LEVEL_UNSPECIFIED | API_OPEN | API_HYBRID | API_OPAQUE

record GoIdent =
  GoName :: string
  GoImportPath :: string

record Oneof =
  oneof_GoName :: string
  oneof_IsSynthetic :: bool

text \<open>
  A field, and what the generator reads of the message a field refers to
  (\<open>field.Message\<close>): its Go identifier, its \<open>mempool\<close> option (\<open>None\<close> when the
  extension is not a \<open>bool\<close>) and its fields, which \<open>FieldGoType\<close> reads for a map
  entry. \<open>f_GoIdent\<close> is the identifier of the wrapper type of a oneof member.
\<close>

datatype Field = Field
    (f_GoName: string)
    (f_GoIdent: GoIdent)
    (f_Kind: Kind)
    (f_IsList: bool)
    (f_IsMap: bool)
    (f_HasPresence: bool)
    (f_IsWeak: bool)
    (f_Oneof: "Oneof option")
    (f_Enum: "GoIdent option")
    (f_Message: "MessageRef option")
and MessageRef = MessageRef
    (r_GoIdent: GoIdent)
    (r_Mempool: "bool option")
    (r_Fields: "Field list")

datatype Message = Message
    (m_GoIdent: GoIdent)
    (m_IsMapEntry: bool)
    (m_APILevel: APILevel)
    (m_Mempool: "bool option")
    (m_Fields: "Field list")
    (m_Messages: "Message list")

record Config =
  Poolable :: "GoIdent set"
  PoolableExclude :: "GoIdent set"

subsection \<open>The generator's helpers\<close>

definition ShouldPool :: "Config \<Rightarrow> MessageRef option \<Rightarrow> bool" where
  "ShouldPool cfg message =
     (case message of
        None \<Rightarrow> False
      | Some r \<Rightarrow>
          if r_GoIdent r \<in> PoolableExclude cfg then False
          else if r_GoIdent r \<in> Poolable cfg then True
          else (case r_Mempool r of Some mempool \<Rightarrow> mempool | None \<Rightarrow> False))"

definition message_ref :: "Message \<Rightarrow> MessageRef" where
  "message_ref m = MessageRef (m_GoIdent m) (m_Mempool m) (m_Fields m)"

definition IsOpaque :: "Message \<Rightarrow> bool" where
  "IsOpaque message \<longleftrightarrow> m_APILevel message = API_OPAQUE"

text \<open>
  \<open>FieldGoType\<close> returns the Go type of a field and whether the struct holds it behind
  a pointer. \<open>q\<close> is protogen's \<open>QualifiedGoIdent\<close>. \<open>None\<close> is a panic: an enum or
  message field without its descriptor, a map entry with fewer than two fields.
\<close>

fun FieldGoType :: "(GoIdent \<Rightarrow> string) \<Rightarrow> Field \<Rightarrow> (string \<times> bool) option" where
  "FieldGoType q (Field name ident kind isList isMap hasPresence isWeak oneof enum msg) =
     (if isWeak then Some (''struct{}'', False)
      else
        (case
           (case kind of
              BoolKind \<Rightarrow> Some (''bool'', hasPresence)
            | EnumKind \<Rightarrow> (case enum of None \<Rightarrow> None | Some e \<Rightarrow> Some (q e, hasPresence))
            | Int32Kind \<Rightarrow> Some (''int32'', hasPresence)
            | Sint32Kind \<Rightarrow> Some (''int32'', hasPresence)
            | Sfixed32Kind \<Rightarrow> Some (''int32'', hasPresence)
            | Uint32Kind \<Rightarrow> Some (''uint32'', hasPresence)
            | Fixed32Kind \<Rightarrow> Some (''uint32'', hasPresence)
            | Int64Kind \<Rightarrow> Some (''int64'', hasPresence)
            | Sint64Kind \<Rightarrow> Some (''int64'', hasPresence)
            | Sfixed64Kind \<Rightarrow> Some (''int64'', hasPresence)
            | Uint64Kind \<Rightarrow> Some (''uint64'', hasPresence)
            | Fixed64Kind \<Rightarrow> Some (''uint64'', hasPresence)
            | FloatKind \<Rightarrow> Some (''float32'', hasPresence)
            | DoubleKind \<Rightarrow> Some (''float64'', hasPresence)
            | StringKind \<Rightarrow> Some (''string'', hasPresence)
            | BytesKind \<Rightarrow> Some (''[]byte'', False)
            | MessageKind \<Rightarrow>
                (case msg of None \<Rightarrow> None | Some r \<Rightarrow> Some (''*'' @ q (r_GoIdent r), False))
            | GroupKind \<Rightarrow>
                (case msg of None \<Rightarrow> None | Some r \<Rightarrow> Some (''*'' @ q (r_GoIdent r), False)))
         of
           None \<Rightarrow> None
         | Some (goType, pointer) \<Rightarrow>
             if isList then Some (''[]'' @ goType, False)
             else if isMap then
               (case msg of
                  Some (MessageRef _ _ (k # v # _)) \<Rightarrow>
                    (case (FieldGoType q k, FieldGoType q v) of
                       (Some (keyType, _), Some (valType, _)) \<Rightarrow>
                         Some (''map['' @ keyType @ '']'' @ valType, False)
                     | _ \<Rightarrow> None)
                | _ \<Rightarrow> None)
             else Some (goType, pointer)))"

section \<open>The pool generator\<close>

subsection \<open>The generated statements\<close>

text \<open>
  The generator prints Go source with \<open>p.P\<close>. Each constructor below stands for the
  lines one branch of the generator prints; \<open>stmt_lines\<close> gives those lines, so the text
  of the generated file is recovered from the statements, and the statements carry the
  structure the meaning of the generated code is defined on.
\<close>

datatype stmt =
    RangeReset string bool
  | Clear string
  | SaveTrunc nat string
  | OneofReturn string string string
  | FieldReturn string
  | OneofSave string string "(string \<times> string) list"
  | ResetAll
  | Restore string nat
  | OneofRestore string

datatype decl =
    PoolVar string string
  | FuncResetVT string "stmt list"
  | FuncReturnToVTPool string
  | FuncFromVTPool string

function decimal :: "nat \<Rightarrow> string" where
  "decimal n =
     (if n < 10 then [char_of (48 + n)]
      else decimal (n div 10) @ [char_of (48 + n mod 10)])"
  by pat_completeness auto
termination
  by (relation "measure id") auto

declare decimal.simps [simp del]

definition Sprintf_f :: "nat \<Rightarrow> string" where
  "Sprintf_f n = ''f'' @ decimal n"

fun case_lines :: "string \<Rightarrow> (string \<times> string) \<Rightarrow> string list" where
  "case_lines oneofName (wrapper, fieldName) =
     [''case *'' @ wrapper @ '':'',
      ''c.'' @ fieldName @ '' = c.'' @ fieldName @ ''[:0]'',
      ''saved'' @ oneofName @ '' = c'']"

fun stmt_lines :: "stmt \<Rightarrow> string list" where
  "stmt_lines (RangeReset fieldName pooled) =
     [''for _, mm := range m.'' @ fieldName @ ''{'',
      (if pooled then ''mm.ResetVT()'' else ''mm.Reset()''),
      ''}'']"
| "stmt_lines (Clear fieldName) = [''clear(m.'' @ fieldName @ '')'']"
| "stmt_lines (SaveTrunc n fieldName) = [Sprintf_f n @ '' := m.'' @ fieldName @ ''[:0]'']"
| "stmt_lines (OneofReturn oneofName wrapper fieldName) =
     [''if oneof, ok := m.'' @ oneofName @ ''.(*'' @ wrapper @ ''); ok {'',
      ''oneof.'' @ fieldName @ ''.ReturnToVTPool()'',
      ''}'']"
| "stmt_lines (FieldReturn fieldName) = [''m.'' @ fieldName @ ''.ReturnToVTPool()'']"
| "stmt_lines (OneofSave oneofName ccTypeName cases) =
     [''var saved'' @ oneofName @ '' is'' @ ccTypeName @ ''_'' @ oneofName,
      ''switch c := m.'' @ oneofName @ ''.(type) {'']
     @ concat (map (case_lines oneofName) cases)
     @ [''}'']"
| "stmt_lines ResetAll = [''m.Reset()'']"
| "stmt_lines (Restore fieldName n) = [''m.'' @ fieldName @ '' = '' @ Sprintf_f n]"
| "stmt_lines (OneofRestore oneofName) = [''m.'' @ oneofName @ '' = saved'' @ oneofName]"

fun decl_lines :: "decl \<Rightarrow> string list" where
  "decl_lines (PoolVar ccTypeName syncPool) =
     [''var vtprotoPool_'' @ ccTypeName @ '' = '' @ syncPool @ ''{'',
      ''New: func() interface{} {'',
      ''return &'' @ ccTypeName @ ''{}'',
      ''},'',
      ''}'']"
| "decl_lines (FuncResetVT ccTypeName body) =
     [''func (m *'' @ ccTypeName @ '') ResetVT() {'',
      ''if m != nil {'']
     @ concat (map stmt_lines body)
     @ [''}'', ''}'']"
| "decl_lines (FuncReturnToVTPool ccTypeName) =
     [''func (m *'' @ ccTypeName @ '') ReturnToVTPool() {'',
      ''if m != nil {'',
      ''m.ResetVT()'',
      ''vtprotoPool_'' @ ccTypeName @ ''.Put(m)'',
      ''}'',
      ''}'']"
| "decl_lines (FuncFromVTPool ccTypeName) =
     [''func '' @ ccTypeName @ ''FromVTPool() *'' @ ccTypeName @ ''{'',
      ''return vtprotoPool_'' @ ccTypeName @ ''.Get().(*'' @ ccTypeName @ '')'',
      ''}'']"

subsection \<open>The generator\<close>

text \<open>
  What the generator takes from outside: protogen's \<open>QualifiedGoIdent\<close>, through which
  \<open>P\<close> prints every identifier, and the order in which Go's \<open>range\<close> visits the keys
  of a map, which the language leaves open. The generator ranges over a map twice, once
  to save and once to restore; each loop has its own order. An order takes the keys
  (here in the order of their first insertion) and returns them as visited.
\<close>

record Gen =
  QualifiedGoIdent :: "GoIdent \<Rightarrow> string"
  range_save :: "string list \<Rightarrow> string list"
  range_restore :: "string list \<Rightarrow> string list"

definition is_range_order :: "(string list \<Rightarrow> string list) \<Rightarrow> bool" where
  "is_range_order ord \<longleftrightarrow> (\<forall>ks. distinct ks \<longrightarrow> mset (ord ks) = mset ks)"

definition in_real_oneof :: "Field \<Rightarrow> bool" where
  "in_real_oneof field \<longleftrightarrow>
     (case f_Oneof field of None \<Rightarrow> False | Some oneof \<Rightarrow> \<not> oneof_IsSynthetic oneof)"

definition Oneof_GoName :: "Field \<Rightarrow> string" where
  "Oneof_GoName field = (case f_Oneof field of None \<Rightarrow> [] | Some oneof \<Rightarrow> oneof_GoName oneof)"

text \<open>
  One turn of the loop over \<open>message.Fields\<close>: the statements printed for the field, and
  \<open>saved\<close> and \<open>oneofBytes\<close> as the turn leaves them.
\<close>

definition field_step ::
  "Config \<Rightarrow> Gen \<Rightarrow> Field \<Rightarrow> Field list \<Rightarrow> Field list \<Rightarrow> stmt list \<times> Field list \<times> Field list"
where
  "field_step cfg g field saved oneofBytes =
     (let fieldName = f_GoName field in
      if f_IsList field then
        ((case f_Kind field of
            MessageKind \<Rightarrow> [RangeReset fieldName (ShouldPool cfg (f_Message field))]
          | GroupKind \<Rightarrow> [RangeReset fieldName (ShouldPool cfg (f_Message field))]
          | BytesKind \<Rightarrow> [Clear fieldName]
          | StringKind \<Rightarrow> [Clear fieldName]
          | _ \<Rightarrow> [])
         @ [SaveTrunc (length saved) fieldName],
         saved @ [field], oneofBytes)
      else if in_real_oneof field then
        (case f_Kind field of
           MessageKind \<Rightarrow>
             (if ShouldPool cfg (f_Message field)
              then [OneofReturn (Oneof_GoName field) (QualifiedGoIdent g (f_GoIdent field)) fieldName]
              else [], saved, oneofBytes)
         | GroupKind \<Rightarrow>
             (if ShouldPool cfg (f_Message field)
              then [OneofReturn (Oneof_GoName field) (QualifiedGoIdent g (f_GoIdent field)) fieldName]
              else [], saved, oneofBytes)
         | BytesKind \<Rightarrow> ([], saved, oneofBytes @ [field])
         | _ \<Rightarrow> ([], saved, oneofBytes))
      else
        (case f_Kind field of
           MessageKind \<Rightarrow>
             (if \<not> f_IsMap field \<and> ShouldPool cfg (f_Message field)
              then [FieldReturn fieldName] else [], saved, oneofBytes)
         | GroupKind \<Rightarrow>
             (if \<not> f_IsMap field \<and> ShouldPool cfg (f_Message field)
              then [FieldReturn fieldName] else [], saved, oneofBytes)
         | BytesKind \<Rightarrow> ([SaveTrunc (length saved) fieldName], saved @ [field], oneofBytes)
         | _ \<Rightarrow> ([], saved, oneofBytes)))"

fun field_loop ::
  "Config \<Rightarrow> Gen \<Rightarrow> Field list \<Rightarrow> Field list \<Rightarrow> Field list \<Rightarrow> stmt list \<times> Field list \<times> Field list"
where
  "field_loop cfg g [] saved oneofBytes = ([], saved, oneofBytes)"
| "field_loop cfg g (field # rest) saved oneofBytes =
     (case field_step cfg g field saved oneofBytes of
        (out, saved', oneofBytes') \<Rightarrow>
          (case field_loop cfg g rest saved' oneofBytes' of
             (out', saved'', oneofBytes'') \<Rightarrow> (out @ out', saved'', oneofBytes'')))"

text \<open>
  \<open>oneofGroups\<close>: the map from a oneof's name to its bytes fields, filled in the order of
  \<open>oneofBytes\<close>, and its keys in the order of their first insertion.
\<close>

definition add_to_group :: "(string \<rightharpoonup> Field list) \<Rightarrow> Field \<Rightarrow> (string \<rightharpoonup> Field list)" where
  "add_to_group groups field =
     groups(Oneof_GoName field \<mapsto>
       (case groups (Oneof_GoName field) of None \<Rightarrow> [] | Some fs \<Rightarrow> fs) @ [field])"

definition oneofGroups :: "Field list \<Rightarrow> string \<rightharpoonup> Field list" where
  "oneofGroups oneofBytes = foldl add_to_group Map.empty oneofBytes"

definition group_keys :: "Field list \<Rightarrow> string list" where
  "group_keys oneofBytes = rev (remdups (rev (map Oneof_GoName oneofBytes)))"

definition save_group :: "Gen \<Rightarrow> string \<Rightarrow> Field list \<Rightarrow> string \<Rightarrow> stmt" where
  "save_group g ccTypeName oneofBytes oneofName =
     OneofSave oneofName ccTypeName
       (map (\<lambda>field. (QualifiedGoIdent g (f_GoIdent field), f_GoName field))
            (case oneofGroups oneofBytes oneofName of None \<Rightarrow> [] | Some fs \<Rightarrow> fs))"

definition save_oneofs :: "Gen \<Rightarrow> string \<Rightarrow> Field list \<Rightarrow> stmt list" where
  "save_oneofs g ccTypeName oneofBytes =
     (if length oneofBytes > 0
      then map (save_group g ccTypeName oneofBytes) (range_save g (group_keys oneofBytes))
      else [])"

definition restore_saved :: "Field list \<Rightarrow> stmt list" where
  "restore_saved saved = map (\<lambda>(i, field). Restore (f_GoName field) i) (enumerate 0 saved)"

definition restore_oneofs :: "Gen \<Rightarrow> Field list \<Rightarrow> stmt list" where
  "restore_oneofs g oneofBytes =
     (if length oneofBytes > 0
      then map OneofRestore (range_restore g (group_keys oneofBytes))
      else [])"

text \<open>The body printed between \<open>if m != nil {\<close> and its closing brace.\<close>

definition ResetVT_body :: "Config \<Rightarrow> Gen \<Rightarrow> Message \<Rightarrow> stmt list" where
  "ResetVT_body cfg g message =
     (case field_loop cfg g (m_Fields message) [] [] of
        (out, saved, oneofBytes) \<Rightarrow>
          out
          @ save_oneofs g (QualifiedGoIdent g (m_GoIdent message)) oneofBytes
          @ [ResetAll]
          @ restore_saved saved
          @ restore_oneofs g oneofBytes)"

definition generates_pool :: "Config \<Rightarrow> Message \<Rightarrow> bool" where
  "generates_pool cfg message \<longleftrightarrow>
     \<not> (m_IsMapEntry message \<or> \<not> ShouldPool cfg (Some (message_ref message)))
     \<and> \<not> IsOpaque message"

fun message :: "Config \<Rightarrow> Gen \<Rightarrow> Message \<Rightarrow> decl list" where
  "message cfg g (Message ident isMapEntry api mempool flds nested) =
     concat (map (message cfg g) nested)
     @ (let msg = Message ident isMapEntry api mempool flds nested;
            ccTypeName = QualifiedGoIdent g ident in
        if m_IsMapEntry msg \<or> \<not> ShouldPool cfg (Some (message_ref msg)) then []
        else if IsOpaque msg then []
        else [PoolVar ccTypeName ''sync.Pool'',
              FuncResetVT ccTypeName (ResetVT_body cfg g msg),
              FuncReturnToVTPool ccTypeName,
              FuncFromVTPool ccTypeName])"

text \<open>
  \<open>GenerateFile\<close> returns the printed lines and \<open>p.once\<close>, which is set as soon as one
  message gets a pool.
\<close>

definition GenerateFile :: "Config \<Rightarrow> Gen \<Rightarrow> Message list \<Rightarrow> string list \<times> bool" where
  "GenerateFile cfg g file_Messages =
     (let decls = concat (map (message cfg g) file_Messages)
      in (concat (map decl_lines decls), decls \<noteq> []))"

section \<open>What the generated code does at run time\<close>

subsection \<open>Go values\<close>

text \<open>
  A slice is \<open>nil\<close> or a backing array with a length; its capacity is the size of the
  backing array. \<open>s[:0]\<close> keeps the array and sets the length to zero; on a \<open>nil\<close>
  slice it is \<open>nil\<close>.
\<close>

datatype 'a slice = NilSlice | Slice (backing: "'a list") (slice_len: nat)

fun len :: "'a slice \<Rightarrow> nat" where
  "len NilSlice = 0"
| "len (Slice b n) = n"

fun cap :: "'a slice \<Rightarrow> nat" where
  "cap NilSlice = 0"
| "cap (Slice b n) = length b"

fun reslice0 :: "'a slice \<Rightarrow> 'a slice" where
  "reslice0 NilSlice = NilSlice"
| "reslice0 (Slice b n) = Slice b 0"

text \<open>
  The values a message struct holds. A message owns what its fields point to, so a
  pointer is modelled by what it points to. A oneof slot holds \<open>nil\<close> or a pointer to a
  wrapper struct; the wrapper carries its address, so that the same wrapper can be told
  from a new one with the same content.
\<close>

datatype val =
    VScalar nat
  | VString string
  | VPointer "val option"
  | VBytes "byte slice"
  | VMessage "inst option"
  | VList "val slice"
  | VMap "(val \<times> val) list option"
  | VOneof "wrapper option"
and inst = Inst (i_type: string) (i_fields: "(string \<times> val) list")
and wrapper = Wrapper (w_addr: nat) (w_type: string) (w_value: val)

fun zero :: "val \<Rightarrow> val" where
  "zero (VScalar _) = VScalar 0"
| "zero (VString _) = VString []"
| "zero (VPointer _) = VPointer None"
| "zero (VBytes _) = VBytes NilSlice"
| "zero (VMessage _) = VMessage None"
| "zero (VList _) = VList NilSlice"
| "zero (VMap _) = VMap None"
| "zero (VOneof _) = VOneof None"

text \<open>\<open>m.Reset()\<close> as protoc-gen-go writes it, \<open>*m = T{}\<close>: every field becomes zero.\<close>

definition zero_fields :: "(string \<times> val) list \<Rightarrow> (string \<times> val) list" where
  "zero_fields fs = map (\<lambda>(k, v). (k, zero v)) fs"

definition Reset_sem :: "inst \<Rightarrow> inst" where
  "Reset_sem i = Inst (i_type i) (zero_fields (i_fields i))"

text \<open>The built-in \<open>clear\<close> on a slice: the elements up to the length become zero.\<close>

fun clear_slice :: "val slice \<Rightarrow> val slice" where
  "clear_slice NilSlice = NilSlice"
| "clear_slice (Slice b n) = Slice (map zero (take n b) @ drop n b) n"

subsection \<open>Pools\<close>

text \<open>
  One \<open>sync.Pool\<close> per generated type, named by the type. \<open>Put\<close> adds an instance.
  \<open>Get\<close> takes any pooled instance out, or ignores the pool and calls \<open>New\<close>; the
  choice is the argument \<open>pick\<close>.
\<close>

type_synonym pools = "string \<Rightarrow> inst list"

definition Put :: "string \<Rightarrow> inst \<Rightarrow> pools \<Rightarrow> pools" where
  "Put T i p = p(T := p T @ [i])"

definition Get :: "string \<Rightarrow> inst \<Rightarrow> nat option \<Rightarrow> pools \<Rightarrow> inst \<times> pools" where
  "Get T new pick p =
     (case pick of
        Some k \<Rightarrow>
          if k < length (p T) then (p T ! k, p(T := take k (p T) @ drop (Suc k) (p T)))
          else (new, p)
      | None \<Rightarrow> (new, p))"

subsection \<open>Statements\<close>

datatype fault = NilDereference | IllTyped | NoSuchMethod | OutOfFuel

text \<open>
  \<open>callee\<close> is what \<open>ResetVT\<close> of another generated type does to a receiver that is
  not \<open>nil\<close>. \<open>IllTyped\<close> stands for a state the Go compiler excludes (a field of
  another type than the statement needs, a variable that was never declared).
\<close>

type_synonym callee = "inst \<Rightarrow> pools \<Rightarrow> fault + inst \<times> pools"

record frame =
  self :: "(string \<times> val) list"
  f_vars :: "nat \<rightharpoonup> val"
  saved_vars :: "string \<rightharpoonup> wrapper option"
  pools :: pools

text \<open>
  \<open>m.ReturnToVTPool()\<close> as generated for the type \<open>T\<close>: nothing on \<open>nil\<close>,
  otherwise \<open>m.ResetVT()\<close> and \<open>vtprotoPool_T.Put(m)\<close>.
\<close>

definition ReturnToVTPool_sem ::
  "string \<Rightarrow> callee \<Rightarrow> inst option \<Rightarrow> pools \<Rightarrow> fault + inst option \<times> pools"
where
  "ReturnToVTPool_sem T resetVT m p =
     (case m of
        None \<Rightarrow> Inr (None, p)
      | Some i \<Rightarrow>
          (case resetVT i p of
             Inl e \<Rightarrow> Inl e
           | Inr (i', p') \<Rightarrow> Inr (Some i', Put T i' p')))"

text \<open>The static type of a field's message is the type of the instance it holds.\<close>

definition type_of :: "inst option \<Rightarrow> string" where
  "type_of m = (case m of None \<Rightarrow> [] | Some i \<Rightarrow> i_type i)"

text \<open>
  The body of \<open>for _, mm := range m.F\<close> on one element: \<open>mm.ResetVT()\<close> does nothing
  on \<open>nil\<close>; \<open>mm.Reset()\<close> dereferences its receiver.
\<close>

definition reset_elem :: "bool \<Rightarrow> callee \<Rightarrow> val \<Rightarrow> pools \<Rightarrow> fault + val \<times> pools" where
  "reset_elem pooled resetVT e p =
     (case e of
        VMessage None \<Rightarrow> if pooled then Inr (e, p) else Inl NilDereference
      | VMessage (Some i) \<Rightarrow>
          if pooled then
            (case resetVT i p of
               Inl x \<Rightarrow> Inl x
             | Inr (i', p') \<Rightarrow> Inr (VMessage (Some i'), p'))
          else Inr (VMessage (Some (Reset_sem i)), p)
      | _ \<Rightarrow> Inl IllTyped)"

fun reset_elems :: "bool \<Rightarrow> callee \<Rightarrow> val list \<Rightarrow> pools \<Rightarrow> fault + val list \<times> pools" where
  "reset_elems pooled resetVT [] p = Inr ([], p)"
| "reset_elems pooled resetVT (e # es) p =
     (case reset_elem pooled resetVT e p of
        Inl x \<Rightarrow> Inl x
      | Inr (e', p') \<Rightarrow>
          (case reset_elems pooled resetVT es p' of
             Inl x \<Rightarrow> Inl x
           | Inr (es', p'') \<Rightarrow> Inr (e' # es', p'')))"

definition field :: "frame \<Rightarrow> string \<Rightarrow> val option" where
  "field st name = map_of (self st) name"

definition set_field :: "string \<Rightarrow> val \<Rightarrow> frame \<Rightarrow> frame" where
  "set_field name v st = st\<lparr>self := AList.update name v (self st)\<rparr>"

fun exec :: "callee \<Rightarrow> stmt \<Rightarrow> frame \<Rightarrow> fault + frame" where
  "exec resetVT (RangeReset fieldName pooled) st =
     (case field st fieldName of
        Some (VList NilSlice) \<Rightarrow> Inr st
      | Some (VList (Slice b n)) \<Rightarrow>
          (case reset_elems pooled resetVT (take n b) (pools st) of
             Inl x \<Rightarrow> Inl x
           | Inr (es, p) \<Rightarrow>
               Inr (set_field fieldName (VList (Slice (es @ drop n b) n)) (st\<lparr>pools := p\<rparr>)))
      | _ \<Rightarrow> Inl IllTyped)"
| "exec resetVT (Clear fieldName) st =
     (case field st fieldName of
        Some (VList s) \<Rightarrow> Inr (set_field fieldName (VList (clear_slice s)) st)
      | _ \<Rightarrow> Inl IllTyped)"
| "exec resetVT (SaveTrunc n fieldName) st =
     (case field st fieldName of
        Some (VList s) \<Rightarrow> Inr (st\<lparr>f_vars := (f_vars st)(n \<mapsto> VList (reslice0 s))\<rparr>)
      | Some (VBytes s) \<Rightarrow> Inr (st\<lparr>f_vars := (f_vars st)(n \<mapsto> VBytes (reslice0 s))\<rparr>)
      | _ \<Rightarrow> Inl IllTyped)"
| "exec resetVT (OneofReturn oneofName wrapperType fieldName) st =
     (case field st oneofName of
        Some (VOneof None) \<Rightarrow> Inr st
      | Some (VOneof (Some (Wrapper a t v))) \<Rightarrow>
          if t = wrapperType then
            (case v of
               VMessage mm \<Rightarrow>
                 (case ReturnToVTPool_sem (type_of mm) resetVT mm (pools st) of
                    Inl x \<Rightarrow> Inl x
                  | Inr (mm', p) \<Rightarrow>
                      Inr (set_field oneofName (VOneof (Some (Wrapper a t (VMessage mm'))))
                             (st\<lparr>pools := p\<rparr>)))
             | _ \<Rightarrow> Inl IllTyped)
          else Inr st
      | _ \<Rightarrow> Inl IllTyped)"
| "exec resetVT (FieldReturn fieldName) st =
     (case field st fieldName of
        Some (VMessage mm) \<Rightarrow>
          (case ReturnToVTPool_sem (type_of mm) resetVT mm (pools st) of
             Inl x \<Rightarrow> Inl x
           | Inr (mm', p) \<Rightarrow> Inr (set_field fieldName (VMessage mm') (st\<lparr>pools := p\<rparr>)))
      | _ \<Rightarrow> Inl IllTyped)"
| "exec resetVT (OneofSave oneofName ccTypeName cases) st =
     (case field st oneofName of
        Some (VOneof None) \<Rightarrow> Inr (st\<lparr>saved_vars := (saved_vars st)(oneofName \<mapsto> None)\<rparr>)
      | Some (VOneof (Some (Wrapper a t v))) \<Rightarrow>
          if t \<in> fst ` set cases then
            (case v of
               VBytes s \<Rightarrow>
                 (let c = Wrapper a t (VBytes (reslice0 s)) in
                  Inr (set_field oneofName (VOneof (Some c))
                         (st\<lparr>saved_vars := (saved_vars st)(oneofName \<mapsto> Some c)\<rparr>)))
             | _ \<Rightarrow> Inl IllTyped)
          else Inr (st\<lparr>saved_vars := (saved_vars st)(oneofName \<mapsto> None)\<rparr>)
      | _ \<Rightarrow> Inl IllTyped)"
| "exec resetVT ResetAll st = Inr (st\<lparr>self := zero_fields (self st)\<rparr>)"
| "exec resetVT (Restore fieldName n) st =
     (case (field st fieldName, f_vars st n) of
        (Some _, Some v) \<Rightarrow> Inr (set_field fieldName v st)
      | _ \<Rightarrow> Inl IllTyped)"
| "exec resetVT (OneofRestore oneofName) st =
     (case (field st oneofName, saved_vars st oneofName) of
        (Some _, Some w) \<Rightarrow> Inr (set_field oneofName (VOneof w) st)
      | _ \<Rightarrow> Inl IllTyped)"

fun exec_list :: "callee \<Rightarrow> stmt list \<Rightarrow> frame \<Rightarrow> fault + frame" where
  "exec_list resetVT [] st = Inr st"
| "exec_list resetVT (s # ss) st =
     (case exec resetVT s st of Inl x \<Rightarrow> Inl x | Inr st' \<Rightarrow> exec_list resetVT ss st')"

subsection \<open>The generated methods\<close>

text \<open>
  \<open>ResetVT\<close> with the body the generator printed, on a receiver that is not \<open>nil\<close>,
  and the method itself with its \<open>if m != nil\<close>.
\<close>

definition run_body :: "callee \<Rightarrow> stmt list \<Rightarrow> inst \<Rightarrow> pools \<Rightarrow> fault + inst \<times> pools" where
  "run_body resetVT body i p =
     (case exec_list resetVT body
             \<lparr>self = i_fields i, f_vars = Map.empty, saved_vars = Map.empty, pools = p\<rparr> of
        Inl x \<Rightarrow> Inl x
      | Inr st \<Rightarrow> Inr (Inst (i_type i) (self st), pools st))"

definition ResetVT_sem :: "callee \<Rightarrow> stmt list \<Rightarrow> inst option \<Rightarrow> pools \<Rightarrow> fault + inst option \<times> pools" where
  "ResetVT_sem resetVT body m p =
     (case m of
        None \<Rightarrow> Inr (None, p)
      | Some i \<Rightarrow>
          (case run_body resetVT body i p of
             Inl x \<Rightarrow> Inl x
           | Inr (i', p') \<Rightarrow> Inr (Some i', p')))"

text \<open>
  The generated file as a program: \<open>ResetVT\<close> of a type is the body printed for it, and
  a call from one body into another type's \<open>ResetVT\<close> runs that type's body. The depth
  of such calls is bounded by the fuel.
\<close>

fun lookup_ResetVT :: "decl list \<Rightarrow> string \<Rightarrow> stmt list option" where
  "lookup_ResetVT [] T = None"
| "lookup_ResetVT (FuncResetVT T' body # ds) T = (if T' = T then Some body else lookup_ResetVT ds T)"
| "lookup_ResetVT (_ # ds) T = lookup_ResetVT ds T"

primrec ResetVT_fuel :: "decl list \<Rightarrow> nat \<Rightarrow> callee" where
  "ResetVT_fuel decls 0 = (\<lambda>i p. Inl OutOfFuel)"
| "ResetVT_fuel decls (Suc n) =
     (\<lambda>i p. case lookup_ResetVT decls (i_type i) of
               None \<Rightarrow> Inl NoSuchMethod
             | Some body \<Rightarrow> run_body (ResetVT_fuel decls n) body i p)"

text \<open>
  Calling the generated methods of the type \<open>T\<close> on a pointer \<open>m\<close> of type \<open>*T\<close>,
  which may be \<open>nil\<close>.
\<close>

definition call_ResetVT ::
  "decl list \<Rightarrow> nat \<Rightarrow> string \<Rightarrow> inst option \<Rightarrow> pools \<Rightarrow> fault + inst option \<times> pools"
where
  "call_ResetVT decls fuel T m p =
     (case lookup_ResetVT decls T of
        None \<Rightarrow> Inl NoSuchMethod
      | Some body \<Rightarrow> ResetVT_sem (ResetVT_fuel decls fuel) body m p)"

definition call_ReturnToVTPool ::
  "decl list \<Rightarrow> nat \<Rightarrow> string \<Rightarrow> inst option \<Rightarrow> pools \<Rightarrow> fault + inst option \<times> pools"
where
  "call_ReturnToVTPool decls fuel T m p =
     (if FuncReturnToVTPool T \<in> set decls then
        (case lookup_ResetVT decls T of
           None \<Rightarrow> Inl NoSuchMethod
         | Some body \<Rightarrow> ReturnToVTPool_sem T (run_body (ResetVT_fuel decls fuel) body) m p)
      else Inl NoSuchMethod)"

text \<open>
  \<open>TFromVTPool()\<close>: \<open>vtprotoPool_T.Get()\<close>, where \<open>new\<close> is the \<open>&T{}\<close> that the
  pool's \<open>New\<close> allocates.
\<close>

definition call_FromVTPool ::
  "decl list \<Rightarrow> string \<Rightarrow> inst \<Rightarrow> nat option \<Rightarrow> pools \<Rightarrow> fault + inst \<times> pools"
where
  "call_FromVTPool decls T new pick p =
     (if FuncFromVTPool T \<in> set decls \<and> PoolVar T ''sync.Pool'' \<in> set decls
      then Inr (Get T new pick p) else Inl NoSuchMethod)"

subsection \<open>Reading a struct\<close>

text \<open>
  The length and the capacity of the slice a field holds (\<open>None\<close> when the field is
  missing or holds no slice), and the wrapper a oneof slot holds.
\<close>

fun handle_len :: "val option \<Rightarrow> nat option" where
  "handle_len (Some (VList s)) = Some (len s)"
| "handle_len (Some (VBytes s)) = Some (len s)"
| "handle_len _ = None"

fun handle_cap :: "val option \<Rightarrow> nat option" where
  "handle_cap (Some (VList s)) = Some (cap s)"
| "handle_cap (Some (VBytes s)) = Some (cap s)"
| "handle_cap _ = None"

fun is_oneof :: "val option \<Rightarrow> bool" where
  "is_oneof (Some (VOneof w)) = True"
| "is_oneof _ = False"

definition get_field :: "inst \<Rightarrow> string \<Rightarrow> val option" where
  "get_field i name = map_of (i_fields i) name"

text \<open>
  The fields whose slice the generator keeps across \<open>m.Reset()\<close> in a variable
  \<open>f0, f1, ...\<close>: every repeated field, and every bytes field outside a real oneof.
\<close>

definition keeps_handle :: "Field \<Rightarrow> bool" where
  "keeps_handle fld \<longleftrightarrow> f_IsList fld \<or> (\<not> in_real_oneof fld \<and> f_Kind fld = BytesKind)"

text \<open>The bytes fields whose oneof wrapper the generator keeps across \<open>m.Reset()\<close>.\<close>

definition keeps_wrapper :: "Field \<Rightarrow> bool" where
  "keeps_wrapper fld \<longleftrightarrow> \<not> f_IsList fld \<and> in_real_oneof fld \<and> f_Kind fld = BytesKind"

subsection \<open>Invariants of the generated reset\<close>

text \<open>
  The statements printed before \<open>m.Reset()\<close>, and among them those printed by the loop
  over the fields that touch no variable (\<open>plain\<close>), those the loop prints at all
  (\<open>loop_stmt\<close>) and the oneof saves.
\<close>

fun before_reset :: "stmt \<Rightarrow> bool" where
  "before_reset ResetAll = False"
| "before_reset (Restore _ _) = False"
| "before_reset (OneofRestore _) = False"
| "before_reset _ = True"

fun plain :: "stmt \<Rightarrow> bool" where
  "plain (RangeReset _ _) = True"
| "plain (Clear _) = True"
| "plain (OneofReturn _ _ _) = True"
| "plain (FieldReturn _) = True"
| "plain _ = False"

fun loop_stmt :: "stmt \<Rightarrow> bool" where
  "loop_stmt (SaveTrunc _ _) = True"
| "loop_stmt s = plain s"

fun is_save :: "stmt \<Rightarrow> bool" where
  "is_save (OneofSave _ _ _) = True"
| "is_save _ = False"

text \<open>
  With \<open>fs0\<close> the fields of the receiver when \<open>ResetVT\<close> starts: every field still
  holds a slice of the capacity it started with, or still holds a oneof
  (\<open>same_shape\<close>); a value is the empty slice of a field's first capacity
  (\<open>good_val\<close>); every variable \<open>f0, f1, ...\<close> declared so far holds such a value for
  its field (\<open>saved_ok\<close>); every declared \<open>saved...\<close> variable belongs to a field
  that held a oneof (\<open>sv_ok\<close>).
\<close>

definition same_shape :: "(string \<Rightarrow> val option) \<Rightarrow> frame \<Rightarrow> bool" where
  "same_shape fs0 st \<longleftrightarrow>
     (\<forall>F. handle_cap (field st F) = handle_cap (fs0 F) \<and> is_oneof (field st F) = is_oneof (fs0 F))"

definition good_val :: "(string \<Rightarrow> val option) \<Rightarrow> string \<Rightarrow> val option \<Rightarrow> bool" where
  "good_val fs0 F v \<longleftrightarrow>
     handle_len v = Some 0 \<and> handle_cap v = handle_cap (fs0 F) \<and> handle_cap (fs0 F) \<noteq> None"

definition saved_ok :: "(string \<Rightarrow> val option) \<Rightarrow> Field list \<Rightarrow> frame \<Rightarrow> bool" where
  "saved_ok fs0 saved st \<longleftrightarrow>
     (\<forall>k < length saved. good_val fs0 (f_GoName (saved ! k)) (f_vars st k))"

definition sv_ok :: "(string \<Rightarrow> val option) \<Rightarrow> frame \<Rightarrow> bool" where
  "sv_ok fs0 st \<longleftrightarrow> (\<forall>G w. saved_vars st G = Some w \<longrightarrow> is_oneof (fs0 G))"

section \<open>Example schemas and instances\<close>

text \<open>
  A message \<open>Item\<close> with one integer, and a message \<open>Sample\<close> with a repeated
  integer, a repeated \<open>Item\<close>, a bytes field, and a oneof \<open>Body\<close> whose only member is
  a bytes field. Both carry the \<open>mempool\<close> option. \<open>TwoOneofs\<close> has two oneofs with a
  bytes member each.
\<close>

definition ident :: "string \<Rightarrow> GoIdent" where
  "ident n = \<lparr>GoName = n, GoImportPath = ''example.com/pb''\<rparr>"

definition no_lists :: Config where
  "no_lists = \<lparr>Poolable = {}, PoolableExclude = {}\<rparr>"

definition gen_with :: "(string list \<Rightarrow> string list) \<Rightarrow> Gen" where
  "gen_with ord = \<lparr>QualifiedGoIdent = GoName, range_save = ord, range_restore = ord\<rparr>"

definition scalar_field :: "string \<Rightarrow> Kind \<Rightarrow> bool \<Rightarrow> Field" where
  "scalar_field name kind isList =
     Field name (ident name) kind isList False False False None None None"

definition oneof_bytes_field :: "string \<Rightarrow> string \<Rightarrow> string \<Rightarrow> Field" where
  "oneof_bytes_field name wrapper oneofName =
     Field name (ident wrapper) BytesKind False False True False
       (Some \<lparr>oneof_GoName = oneofName, oneof_IsSynthetic = False\<rparr>) None None"

definition Item_msg :: Message where
  "Item_msg = Message (ident ''Item'') False API_OPEN (Some True)
     [scalar_field ''N'' Int64Kind False] []"

definition Items_field :: Field where
  "Items_field =
     Field ''Items'' (ident ''Items'') MessageKind True False False False None None
       (Some (message_ref Item_msg))"

definition Sample_msg :: Message where
  "Sample_msg = Message (ident ''Sample'') False API_OPEN (Some True)
     [scalar_field ''Values'' Int64Kind True,
      Items_field,
      scalar_field ''Data'' BytesKind False,
      oneof_bytes_field ''Raw'' ''Sample_Raw'' ''Body''] []"

definition TwoOneofs_msg :: Message where
  "TwoOneofs_msg = Message (ident ''TwoOneofs'') False API_OPEN (Some True)
     [oneof_bytes_field ''A'' ''TwoOneofs_A'' ''X'',
      oneof_bytes_field ''B'' ''TwoOneofs_B'' ''Y''] []"

definition Sample_decls :: "decl list" where
  "Sample_decls = concat (map (message no_lists (gen_with id)) [Item_msg, Sample_msg])"

text \<open>
  A \<open>Sample\<close> whose \<open>Values\<close> hold 5 of 8 allocated slots, whose \<open>Items\<close> hold 2 of
  3, whose \<open>Data\<close> hold 3 of 4 bytes, and whose oneof holds the wrapper at address 100
  with 2 of 2 bytes; and the same instance after \<open>ResetVT\<close>.
\<close>

definition an_Item :: "nat \<Rightarrow> val" where
  "an_Item n = VMessage (Some (Inst ''Item'' [(''N'', VScalar n)]))"

definition a_Sample :: inst where
  "a_Sample = Inst ''Sample''
     [(''Values'', VList (Slice (map VScalar [11, 12, 13, 14, 15, 16, 17, 18]) 5)),
      (''Items'', VList (Slice [an_Item 1, an_Item 2, an_Item 3] 2)),
      (''Data'', VBytes (Slice [1, 2, 3, 4] 3)),
      (''Body'', VOneof (Some (Wrapper 100 ''Sample_Raw'' (VBytes (Slice [7, 8] 2)))))]"

definition a_Sample_reset :: inst where
  "a_Sample_reset = Inst ''Sample''
     [(''Values'', VList (Slice (map VScalar [11, 12, 13, 14, 15, 16, 17, 18]) 0)),
      (''Items'', VList (Slice [an_Item 0, an_Item 0, an_Item 3] 0)),
      (''Data'', VBytes (Slice [1, 2, 3, 4] 0)),
      (''Body'', VOneof (Some (Wrapper 100 ''Sample_Raw'' (VBytes (Slice [7, 8] 0)))))]"

definition new_Sample :: inst where
  "new_Sample = Inst ''Sample''
     [(''Values'', VList NilSlice),
      (''Items'', VList NilSlice),
      (''Data'', VBytes NilSlice),
      (''Body'', VOneof None)]"

definition no_pools :: pools where
  "no_pools = (\<lambda>T. [])"

section \<open>Instances on which the generated reset runs\<close>

subsection \<open>Values of the type a field has\<close>

text \<open>
  The generated code is Go, and Go's types decide what a field of the struct can hold.
  \<open>tag_of\<close> is the sort of a value. \<open>msg_ok P\<close> holds of a pointer to a message that
  is \<open>nil\<close> or points to an instance in the class \<open>P\<close>. An element of a repeated
  message field has to be such a pointer when the elements are reset by \<open>mm.ResetVT()\<close>;
  when they are reset by \<open>mm.Reset()\<close> it has to be a pointer that is not \<open>nil\<close>,
  since \<open>Reset\<close> writes through its receiver.
\<close>

datatype tag = TScalar | TString | TPointer | TBytes | TMessage | TList | TMap | TOneof

fun tag_of :: "val \<Rightarrow> tag" where
  "tag_of (VScalar _) = TScalar"
| "tag_of (VString _) = TString"
| "tag_of (VPointer _) = TPointer"
| "tag_of (VBytes _) = TBytes"
| "tag_of (VMessage _) = TMessage"
| "tag_of (VList _) = TList"
| "tag_of (VMap _) = TMap"
| "tag_of (VOneof _) = TOneof"

fun msg_ok :: "(inst \<Rightarrow> bool) \<Rightarrow> val \<Rightarrow> bool" where
  "msg_ok P (VMessage None) = True"
| "msg_ok P (VMessage (Some i)) = P i"
| "msg_ok P _ = False"

definition elem_ok :: "(inst \<Rightarrow> bool) \<Rightarrow> bool \<Rightarrow> val \<Rightarrow> bool" where
  "elem_ok P pooled e \<longleftrightarrow>
     (if pooled then msg_ok P e else tag_of e = TMessage \<and> e \<noteq> VMessage None)"

text \<open>
  A single value of a kind: a pointer to a message (within \<open>P\<close> when the generator
  treats the message type as pooled, since then the reset calls into it), a slice of
  bytes, or a scalar, a string or a pointer to one. A slice of values, with its length
  within its backing array. A oneof slot: \<open>nil\<close> or a wrapper whose type and value
  satisfy \<open>Q\<close>.
\<close>

definition kind_ok :: "(inst \<Rightarrow> bool) \<Rightarrow> bool \<Rightarrow> Kind \<Rightarrow> val \<Rightarrow> bool" where
  "kind_ok P pooled kind v \<longleftrightarrow>
     (if kind = MessageKind \<or> kind = GroupKind
      then (if pooled then msg_ok P v else tag_of v = TMessage)
      else if kind = BytesKind then tag_of v = TBytes
      else tag_of v \<in> {TScalar, TString, TPointer})"

fun list_ok :: "(val \<Rightarrow> bool) \<Rightarrow> val option \<Rightarrow> bool" where
  "list_ok Q (Some (VList NilSlice)) = True"
| "list_ok Q (Some (VList (Slice b n))) = (n \<le> length b \<and> list_all Q (take n b))"
| "list_ok Q _ = False"

fun slot_ok :: "(string \<Rightarrow> val \<Rightarrow> bool) \<Rightarrow> val option \<Rightarrow> bool" where
  "slot_ok Q (Some (VOneof None)) = True"
| "slot_ok Q (Some (VOneof (Some (Wrapper a t v)))) = Q t v"
| "slot_ok Q _ = False"

text \<open>
  \<open>holds P cfg g fld fs\<close>: the struct fields \<open>fs\<close> hold, for the schema field
  \<open>fld\<close>, a value of the type the generated struct gives it, with the distinction of
  cases the generator makes: a repeated field is a slice under the field's name, a
  member of a real oneof lives in the slot named after the oneof, inside the wrapper
  named by the field's identifier, a map field is a map, any other field is a single
  value. An instance of a message holds such a value for every field of the message.
\<close>

definition holds :: "(inst \<Rightarrow> bool) \<Rightarrow> Config \<Rightarrow> Gen \<Rightarrow> Field \<Rightarrow> (string \<Rightarrow> val option) \<Rightarrow> bool" where
  "holds P cfg g fld fs =
     (let pooled = ShouldPool cfg (f_Message fld); kind = f_Kind fld in
      if f_IsList fld then
        list_ok (if kind = MessageKind \<or> kind = GroupKind then elem_ok P pooled
                 else kind_ok P pooled kind)
          (fs (f_GoName fld))
      else if in_real_oneof fld then
        slot_ok (\<lambda>t v. t = QualifiedGoIdent g (f_GoIdent fld) \<longrightarrow> kind_ok P pooled kind v)
          (fs (Oneof_GoName fld))
      else
        (case fs (f_GoName fld) of
           None \<Rightarrow> False
         | Some v \<Rightarrow>
             if f_IsMap fld \<and> (kind = MessageKind \<or> kind = GroupKind) then tag_of v = TMap
             else kind_ok P pooled kind v))"

definition instance_of :: "(inst \<Rightarrow> bool) \<Rightarrow> Config \<Rightarrow> Gen \<Rightarrow> Message \<Rightarrow> inst \<Rightarrow> bool" where
  "instance_of P cfg g msg m \<longleftrightarrow>
     list_all (\<lambda>fld. holds P cfg g fld (get_field m)) (m_Fields msg)"

subsection \<open>What a statement needs, and what a nested reset must do\<close>

text \<open>
  \<open>ready P s fs\<close>: the fields \<open>fs\<close> are such that the statement \<open>s\<close> neither is
  ill-typed nor dereferences \<open>nil\<close>, and every instance it passes to another type's
  \<open>ResetVT\<close> is in \<open>P\<close>. \<open>resets_within P resetVT\<close>: on an instance in \<open>P\<close> the
  nested reset returns, with an instance in \<open>P\<close> again, and \<open>Reset\<close> stays in \<open>P\<close>
  too.
\<close>

fun ready :: "(inst \<Rightarrow> bool) \<Rightarrow> stmt \<Rightarrow> (string \<Rightarrow> val option) \<Rightarrow> bool" where
  "ready P (RangeReset F pooled) fs = list_ok (elem_ok P pooled) (fs F)"
| "ready P (Clear F) fs = list_ok (\<lambda>e. tag_of e \<noteq> TMessage) (fs F)"
| "ready P (SaveTrunc k F) fs = (handle_cap (fs F) \<noteq> None)"
| "ready P (OneofReturn G W F) fs = slot_ok (\<lambda>t v. t = W \<longrightarrow> msg_ok P v) (fs G)"
| "ready P (FieldReturn F) fs = (case fs F of None \<Rightarrow> False | Some v \<Rightarrow> msg_ok P v)"
| "ready P (OneofSave G T cs) fs = slot_ok (\<lambda>t v. t \<in> fst ` set cs \<longrightarrow> tag_of v = TBytes) (fs G)"
| "ready P ResetAll fs = True"
| "ready P (Restore F k) fs = True"
| "ready P (OneofRestore G) fs = True"

definition resets_within :: "(inst \<Rightarrow> bool) \<Rightarrow> callee \<Rightarrow> bool" where
  "resets_within P resetVT \<longleftrightarrow>
     (\<forall>i. P i \<longrightarrow> P (Reset_sem i) \<and> (\<forall>p. \<exists>i' p'. resetVT i p = Inr (i', p') \<and> P i'))"

subsection \<open>What the reset leaves of a value\<close>

text \<open>
  The elements of a slice up to its length, whether the length is within the backing
  array, and the type and value of the wrapper a oneof slot holds. \<open>keeps P x y\<close>
  relates a value \<open>x\<close> of a field to a later value \<open>y\<close> of the same field: the
  sort is the same, a pointer to a message within \<open>P\<close> stays one, a slice has become
  empty or has the same elements as far as sort, \<open>nil\<close> and \<open>P\<close> go, and a oneof
  slot has become \<open>nil\<close> or holds a wrapper of the same type with a value of the same
  sort. \<open>keeps_fields\<close> is the relation on all fields of the struct; \<open>sv_rel\<close> and
  \<open>vars_rel\<close> say that the variables \<open>saved...\<close> and \<open>f0, f1, ...\<close> hold values
  so related to what their fields held when \<open>ResetVT\<close> started.
\<close>

fun elems :: "val \<Rightarrow> val list" where
  "elems (VList (Slice b n)) = take n b"
| "elems _ = []"

fun in_bounds :: "val \<Rightarrow> bool" where
  "in_bounds (VList (Slice b n)) = (n \<le> length b)"
| "in_bounds _ = True"

fun payload :: "val \<Rightarrow> (string \<times> val) option" where
  "payload (VOneof (Some (Wrapper a t u))) = Some (t, u)"
| "payload _ = None"

definition ekeeps :: "(inst \<Rightarrow> bool) \<Rightarrow> val \<Rightarrow> val \<Rightarrow> bool" where
  "ekeeps P e e' \<longleftrightarrow>
     tag_of e' = tag_of e \<and> (msg_ok P e \<longrightarrow> msg_ok P e') \<and> (e \<noteq> VMessage None \<longrightarrow> e' \<noteq> VMessage None)"

definition keeps :: "(inst \<Rightarrow> bool) \<Rightarrow> val \<Rightarrow> val \<Rightarrow> bool" where
  "keeps P x y \<longleftrightarrow>
     tag_of y = tag_of x \<and> (msg_ok P x \<longrightarrow> msg_ok P y) \<and> (in_bounds x \<longrightarrow> in_bounds y)
     \<and> (elems y = [] \<or> list_all2 (ekeeps P) (elems x) (elems y))
     \<and> (payload y = None
        \<or> (\<exists>t u u'. payload x = Some (t, u) \<and> payload y = Some (t, u')
              \<and> tag_of u' = tag_of u \<and> (msg_ok P u \<longrightarrow> msg_ok P u')))"

fun okeeps :: "(inst \<Rightarrow> bool) \<Rightarrow> val option \<Rightarrow> val option \<Rightarrow> bool" where
  "okeeps P None None = True"
| "okeeps P (Some x) (Some y) = keeps P x y"
| "okeeps P _ _ = False"

definition keeps_fields :: "(inst \<Rightarrow> bool) \<Rightarrow> (string \<Rightarrow> val option) \<Rightarrow> (string \<Rightarrow> val option) \<Rightarrow> bool" where
  "keeps_fields P fs fs' \<longleftrightarrow> (\<forall>F. okeeps P (fs F) (fs' F))"

definition sv_rel :: "(inst \<Rightarrow> bool) \<Rightarrow> (string \<Rightarrow> val option) \<Rightarrow> frame \<Rightarrow> bool" where
  "sv_rel P fs0 st \<longleftrightarrow>
     (\<forall>G w. saved_vars st G = Some w \<longrightarrow> okeeps P (fs0 G) (Some (VOneof w)))"

definition vars_rel :: "(inst \<Rightarrow> bool) \<Rightarrow> (string \<Rightarrow> val option) \<Rightarrow> Field list \<Rightarrow> frame \<Rightarrow> bool" where
  "vars_rel P fs0 saved st \<longleftrightarrow>
     (\<forall>k < length saved. \<exists>v. f_vars st k = Some v \<and> okeeps P (fs0 (f_GoName (saved ! k))) (Some v))"

subsection \<open>The generated file and its instances\<close>

text \<open>
  The declarations \<open>GenerateFile\<close> prints for a file; the messages of a file with the
  nested ones, a message after the messages nested in it, which is the order of the
  declarations; \<open>schema_of\<close>, the message whose \<open>ResetVT\<close> a call on a receiver of type
  \<open>T\<close> runs: the first one of that name that gets a pool; and the four declarations
  printed for a message itself.
\<close>

definition generated_decls :: "Config \<Rightarrow> Gen \<Rightarrow> Message list \<Rightarrow> decl list" where
  "generated_decls cfg g file_Messages = concat (map (message cfg g) file_Messages)"

fun flatten :: "Message \<Rightarrow> Message list" where
  "flatten (Message goIdent isMapEntry api mempool flds nested) =
     concat (map flatten nested) @ [Message goIdent isMapEntry api mempool flds nested]"

definition schema_of :: "Config \<Rightarrow> Gen \<Rightarrow> Message list \<Rightarrow> string \<Rightarrow> Message option" where
  "schema_of cfg g file_Messages T =
     find (\<lambda>msg. generates_pool cfg msg \<and> QualifiedGoIdent g (m_GoIdent msg) = T)
       (concat (map flatten file_Messages))"

definition own_decls :: "Config \<Rightarrow> Gen \<Rightarrow> Message \<Rightarrow> decl list" where
  "own_decls cfg g msg =
     (if generates_pool cfg msg
      then [PoolVar (QualifiedGoIdent g (m_GoIdent msg)) ''sync.Pool'',
            FuncResetVT (QualifiedGoIdent g (m_GoIdent msg)) (ResetVT_body cfg g msg),
            FuncReturnToVTPool (QualifiedGoIdent g (m_GoIdent msg)),
            FuncFromVTPool (QualifiedGoIdent g (m_GoIdent msg))]
      else [])"

text \<open>
  \<open>well_formed schema cfg g n i\<close>: the instance \<open>i\<close> is an instance of the message
  its type names, and so are, \<open>n - 1\<close> levels deep, the instances its fields point to
  that the reset calls into. \<open>generated_for\<close>: the declarations hold, for every type
  of the schema, the \<open>ResetVT\<close> the generator prints for it; \<open>has_pool\<close>: they hold
  the pool and its two functions.
\<close>

primrec well_formed :: "(string \<Rightarrow> Message option) \<Rightarrow> Config \<Rightarrow> Gen \<Rightarrow> nat \<Rightarrow> inst \<Rightarrow> bool" where
  "well_formed schema cfg g 0 i = False"
| "well_formed schema cfg g (Suc n) i =
     (case schema (i_type i) of
        None \<Rightarrow> False
      | Some msg \<Rightarrow> instance_of (well_formed schema cfg g n) cfg g msg i)"

definition generated_for :: "(string \<Rightarrow> Message option) \<Rightarrow> Config \<Rightarrow> Gen \<Rightarrow> decl list \<Rightarrow> bool" where
  "generated_for schema cfg g decls \<longleftrightarrow>
     (\<forall>T msg. schema T = Some msg \<longrightarrow> lookup_ResetVT decls T = Some (ResetVT_body cfg g msg))"

definition has_pool :: "decl list \<Rightarrow> string \<Rightarrow> bool" where
  "has_pool decls T \<longleftrightarrow>
     PoolVar T ''sync.Pool'' \<in> set decls \<and> FuncReturnToVTPool T \<in> set decls
     \<and> FuncFromVTPool T \<in> set decls"

subsection \<open>The example as an instance\<close>

text \<open>
  The schema of the example file; a configuration that excludes \<open>Item\<close> from pooling,
  so that the elements of \<open>Items\<close> are reset by \<open>Reset\<close>; the frame in which
  \<open>ResetVT\<close> starts on the example instance, and the frame after the two statements
  printed for \<open>Items\<close>.
\<close>

definition Sample_schema :: "string \<Rightarrow> Message option" where
  "Sample_schema = map_of [(''Item'', Item_msg), (''Sample'', Sample_msg)]"

definition Item_not_pooled :: Config where
  "Item_not_pooled = \<lparr>Poolable = {}, PoolableExclude = {ident ''Item''}\<rparr>"

definition Sample_frame :: frame where
  "Sample_frame = \<lparr>self = i_fields a_Sample, f_vars = Map.empty, saved_vars = Map.empty, pools = no_pools\<rparr>"

definition Sample_frame_after :: frame where
  "Sample_frame_after =
     \<lparr>self = [(''Values'', VList (Slice (map VScalar [11, 12, 13, 14, 15, 16, 17, 18]) 5)),
              (''Items'', VList (Slice [an_Item 0, an_Item 0, an_Item 3] 2)),
              (''Data'', VBytes (Slice [1, 2, 3, 4] 3)),
              (''Body'', VOneof (Some (Wrapper 100 ''Sample_Raw'' (VBytes (Slice [7, 8] 2)))))],
      f_vars = [0 \<mapsto> VList (Slice [an_Item 0, an_Item 0, an_Item 3] 0)],
      saved_vars = Map.empty, pools = no_pools\<rparr>"

section \<open>The wire format\<close>

text \<open>
  The generators of the encode, decode and size routines and the helper package are not
  among the sources. The definitions of this section follow the specification's
  sections 3, 4.2 to 4.4 and 7, for messages whose fields are singular scalars, strings
  and bytes; that is what the claims about presence and text validation need.
\<close>

subsection \<open>Variable-length and fixed-width integers\<close>

text \<open>
  Modelled from the spec: the helper \<open>EncodeVarint\<close> is missing. A varint carries 7 bits
  per byte, low bits first, the high bit of a byte saying that more follow.
\<close>

function encode_varint :: "nat \<Rightarrow> byte list" where
  "encode_varint v =
     (if v < 128 then [of_nat v]
      else of_nat (v mod 128 + 128) # encode_varint (v div 128))"
  by pat_completeness auto
termination
  by (relation "measure id") auto

declare encode_varint.simps [simp del]

text \<open>
  Modelled from the spec: the varint reader of the generated decoder is missing. It
  rejects a varint that does not end within 64 bits (\<open>ErrIntOverflow\<close>) and one that the
  input cuts short (\<open>ErrUnexpectedEOF\<close>); bits shifted beyond 64 are lost.
\<close>

fun decode_varint_at :: "nat \<Rightarrow> nat \<Rightarrow> byte list \<Rightarrow> error + nat \<times> byte list" where
  "decode_varint_at shift v [] =
     (if shift \<ge> 64 then Inl ErrIntOverflow else Inl ErrUnexpectedEOF)"
| "decode_varint_at shift v (b # rest) =
     (if shift \<ge> 64 then Inl ErrIntOverflow
      else
        (let v' = (v + (unat b mod 128) * 2 ^ shift) mod 2 ^ 64 in
         if unat b < 128 then Inr (v', rest) else decode_varint_at (shift + 7) v' rest))"

definition decode_varint :: "byte list \<Rightarrow> error + nat \<times> byte list" where
  "decode_varint bs = decode_varint_at 0 0 bs"

text \<open>Modelled from the spec: fixed-width integers are little-endian.\<close>

primrec le_bytes :: "nat \<Rightarrow> nat \<Rightarrow> byte list" where
  "le_bytes 0 v = []"
| "le_bytes (Suc k) v = of_nat (v mod 256) # le_bytes k (v div 256)"

primrec le_value :: "byte list \<Rightarrow> nat" where
  "le_value [] = 0"
| "le_value (b # bs) = unat b + 256 * le_value bs"

subsection \<open>Text\<close>

definition bytes_of_string :: "string \<Rightarrow> byte list" where
  "bytes_of_string s = map (\<lambda>c. of_nat (of_char c)) s"

definition string_of_bytes :: "byte list \<Rightarrow> string" where
  "string_of_bytes bs = map (\<lambda>b. char_of (unat b)) bs"

text \<open>
  Modelled from the spec: the helper \<open>ValidateUTF8\<close> is missing. Well-formed text is
  UTF-8 as RFC 3629 has it: \<open>utf8_lead\<close> gives, for a lead byte, how many bytes follow
  and the range of the first of them; the others are continuation bytes.
\<close>

definition utf8_lead :: "nat \<Rightarrow> (nat \<times> nat \<times> nat) option" where
  "utf8_lead b =
     (if 0xC2 \<le> b \<and> b \<le> 0xDF then Some (1, 0x80, 0xBF)
      else if b = 0xE0 then Some (2, 0xA0, 0xBF)
      else if b = 0xED then Some (2, 0x80, 0x9F)
      else if 0xE1 \<le> b \<and> b \<le> 0xEF then Some (2, 0x80, 0xBF)
      else if b = 0xF0 then Some (3, 0x90, 0xBF)
      else if 0xF1 \<le> b \<and> b \<le> 0xF3 then Some (3, 0x80, 0xBF)
      else if b = 0xF4 then Some (3, 0x80, 0x8F)
      else None)"

function utf8_valid :: "nat list \<Rightarrow> bool" where
  "utf8_valid [] = True"
| "utf8_valid (b # bs) =
     (if b < 0x80 then utf8_valid bs
      else
        (case utf8_lead b of
           None \<Rightarrow> False
         | Some (n, lo, hi) \<Rightarrow>
             (case bs of
                [] \<Rightarrow> False
              | b1 # bs' \<Rightarrow>
                  lo \<le> b1 \<and> b1 \<le> hi \<and> n - 1 \<le> length bs'
                  \<and> list_all (\<lambda>c. 0x80 \<le> c \<and> c \<le> 0xBF) (take (n - 1) bs')
                  \<and> utf8_valid (drop (n - 1) bs'))))"
  by pat_completeness auto
termination
  by (relation "measure length") auto

definition ValidateUTF8 :: "byte list \<Rightarrow> bool" where
  "ValidateUTF8 bs = utf8_valid (map unat bs)"

subsection \<open>The field plan\<close>

datatype Presence = Implicit | Explicit

record FieldPlan =
  fp_name :: string
  fp_number :: nat
  fp_kind :: Kind
  fp_presence :: Presence
  fp_strict :: bool

text \<open>Modelled from the spec: the closed table from a kind to its wire type.\<close>

fun wire_type :: "Kind \<Rightarrow> nat" where
  "wire_type Fixed64Kind = 1"
| "wire_type Sfixed64Kind = 1"
| "wire_type DoubleKind = 1"
| "wire_type StringKind = 2"
| "wire_type BytesKind = 2"
| "wire_type MessageKind = 2"
| "wire_type GroupKind = 3"
| "wire_type Fixed32Kind = 5"
| "wire_type Sfixed32Kind = 5"
| "wire_type FloatKind = 5"
| "wire_type _ = 0"

definition is_scalar :: "Kind \<Rightarrow> bool" where
  "is_scalar kind \<longleftrightarrow> wire_type kind \<in> {0, 1, 5}"

text \<open>
  How a field sits in the struct, after \<open>FieldGoType\<close>: a scalar or a string with
  explicit presence is behind a pointer (\<open>VPointer\<close>), one with implicit presence is
  held directly; bytes are a slice either way, and an explicit-presence bytes field is
  absent when the slice is \<open>nil\<close>. A scalar is held as the unsigned integer its kind
  puts on the wire (two's complement, the zigzag image, the IEEE bits), which is 0
  exactly for the kind's zero value.
\<close>

definition zero_of :: "FieldPlan \<Rightarrow> val" where
  "zero_of fp =
     (if fp_kind fp = BytesKind then VBytes NilSlice
      else if fp_presence fp = Explicit then VPointer None
      else if fp_kind fp = StringKind then VString []
      else VScalar 0)"

definition fresh :: "FieldPlan list \<Rightarrow> (string \<times> val) list" where
  "fresh plan = map (\<lambda>fp. (fp_name fp, zero_of fp)) plan"

fun slice_bytes :: "byte slice \<Rightarrow> byte list" where
  "slice_bytes NilSlice = []"
| "slice_bytes (Slice b n) = take n b"

subsection \<open>Encode\<close>

text \<open>
  Modelled from the spec (4.3, Omission): what a field puts on the wire, if anything.
  With implicit presence the zero value is skipped; with explicit presence whatever is
  not absent is emitted.
\<close>

fun emitted :: "Presence \<Rightarrow> val \<Rightarrow> val option" where
  "emitted Implicit (VScalar u) = (if u = 0 then None else Some (VScalar u))"
| "emitted Implicit (VString s) = (if s = [] then None else Some (VString s))"
| "emitted Implicit (VBytes s) = (if len s = 0 then None else Some (VBytes s))"
| "emitted Explicit (VPointer p) = p"
| "emitted Explicit (VBytes NilSlice) = None"
| "emitted Explicit (VBytes s) = Some (VBytes s)"
| "emitted _ _ = None"

definition tag_bytes :: "FieldPlan \<Rightarrow> byte list" where
  "tag_bytes fp = encode_varint (fp_number fp * 8 + wire_type (fp_kind fp))"

fun payload_bytes :: "Kind \<Rightarrow> val \<Rightarrow> byte list" where
  "payload_bytes kind (VScalar u) =
     (if wire_type kind = 1 then le_bytes 8 u
      else if wire_type kind = 5 then le_bytes 4 u
      else encode_varint u)"
| "payload_bytes kind (VString s) = encode_varint (length s) @ bytes_of_string s"
| "payload_bytes kind (VBytes s) = encode_varint (len s) @ slice_bytes s"
| "payload_bytes kind _ = []"

definition encode_field :: "FieldPlan \<Rightarrow> (string \<times> val) list \<Rightarrow> byte list" where
  "encode_field fp m =
     (case map_of m (fp_name fp) of
        None \<Rightarrow> []
      | Some v \<Rightarrow>
          (case emitted (fp_presence fp) v of
             None \<Rightarrow> []
           | Some x \<Rightarrow> tag_bytes fp @ payload_bytes (fp_kind fp) x))"

text \<open>
  Modelled from the spec (4.2, 4.3): the size is the sum over the fields; the encoder
  fills a buffer of that size from the tail backward, in reverse field order, so each
  field's bytes land before what is already written.
\<close>

definition SizeVT_sem :: "FieldPlan list \<Rightarrow> (string \<times> val) list \<Rightarrow> nat" where
  "SizeVT_sem plan m = sum_list (map (\<lambda>fp. length (encode_field fp m)) plan)"

definition MarshalVT_sem :: "FieldPlan list \<Rightarrow> (string \<times> val) list \<Rightarrow> byte list" where
  "MarshalVT_sem plan m = foldl (\<lambda>written fp. encode_field fp m @ written) [] (rev plan)"

subsection \<open>Decode\<close>

text \<open>
  Modelled from the spec (4.4, 7): the payload of a known field whose wire type matches.
  A length-delimited span longer than the rest of the input is rejected; a strict
  string is validated.
\<close>

definition split_at :: "nat \<Rightarrow> byte list \<Rightarrow> error + byte list \<times> byte list" where
  "split_at n bs = (if n > length bs then Inl ErrUnexpectedEOF else Inr (take n bs, drop n bs))"

definition decode_length_delimited :: "byte list \<Rightarrow> error + byte list \<times> byte list" where
  "decode_length_delimited bs =
     (case decode_varint bs of
        Inl e \<Rightarrow> Inl e
      | Inr (n, rest) \<Rightarrow> if n \<ge> 2 ^ 63 then Inl ErrInvalidLength else split_at n rest)"

definition decode_value :: "FieldPlan \<Rightarrow> byte list \<Rightarrow> error + val \<times> byte list" where
  "decode_value fp bs =
     (if wire_type (fp_kind fp) = 0 then
        (case decode_varint bs of Inl e \<Rightarrow> Inl e | Inr (u, rest) \<Rightarrow> Inr (VScalar u, rest))
      else if wire_type (fp_kind fp) = 1 then
        (case split_at 8 bs of Inl e \<Rightarrow> Inl e | Inr (x, rest) \<Rightarrow> Inr (VScalar (le_value x), rest))
      else if wire_type (fp_kind fp) = 5 then
        (case split_at 4 bs of Inl e \<Rightarrow> Inl e | Inr (x, rest) \<Rightarrow> Inr (VScalar (le_value x), rest))
      else
        (case decode_length_delimited bs of
           Inl e \<Rightarrow> Inl e
         | Inr (x, rest) \<Rightarrow>
             if fp_kind fp = StringKind then
               (if fp_strict fp \<and> \<not> ValidateUTF8 x then Inl ErrInvalidUTF8
                else Inr (VString (string_of_bytes x), rest))
             else Inr (VBytes (Slice x (length x)), rest)))"

text \<open>
  Modelled from the spec (4.4): an unrecognized field, or a known one with another wire
  type, is skipped by its wire type's framing. Groups are outside this model.
\<close>

definition skip_value :: "nat \<Rightarrow> byte list \<Rightarrow> error + byte list" where
  "skip_value wt bs =
     (if wt = 0 then (case decode_varint bs of Inl e \<Rightarrow> Inl e | Inr (_, rest) \<Rightarrow> Inr rest)
      else if wt = 1 then (case split_at 8 bs of Inl e \<Rightarrow> Inl e | Inr (_, rest) \<Rightarrow> Inr rest)
      else if wt = 2 then
        (case decode_length_delimited bs of Inl e \<Rightarrow> Inl e | Inr (_, rest) \<Rightarrow> Inr rest)
      else if wt = 5 then (case split_at 4 bs of Inl e \<Rightarrow> Inl e | Inr (_, rest) \<Rightarrow> Inr rest)
      else if wt = 4 then Inl ErrUnexpectedEndOfGroup
      else Inl (Errorf ''proto: illegal wireType''))"

text \<open>A singular field takes the decoded value: last occurrence wins.\<close>

definition assign :: "FieldPlan \<Rightarrow> val \<Rightarrow> (string \<times> val) list \<Rightarrow> (string \<times> val) list" where
  "assign fp v m =
     AList.update (fp_name fp)
       (if fp_presence fp = Explicit \<and> fp_kind fp \<noteq> BytesKind then VPointer (Some v) else v) m"

definition decode_one ::
  "FieldPlan list \<Rightarrow> byte list \<Rightarrow> (string \<times> val) list \<Rightarrow> error + byte list \<times> (string \<times> val) list"
where
  "decode_one plan bs m =
     (case decode_varint bs of
        Inl e \<Rightarrow> Inl e
      | Inr (wire, rest) \<Rightarrow>
          (case find (\<lambda>fp. fp_number fp = wire div 8) plan of
             Some fp \<Rightarrow>
               if wire_type (fp_kind fp) = wire mod 8 \<and> wire_type (fp_kind fp) \<noteq> 3 then
                 (case decode_value fp rest of
                    Inl e \<Rightarrow> Inl e
                  | Inr (v, rest') \<Rightarrow> Inr (rest', assign fp v m))
               else (case skip_value (wire mod 8) rest of Inl e \<Rightarrow> Inl e | Inr rest' \<Rightarrow> Inr (rest', m))
           | None \<Rightarrow>
               (case skip_value (wire mod 8) rest of Inl e \<Rightarrow> Inl e | Inr rest' \<Rightarrow> Inr (rest', m))))"

text \<open>Every step of the decoder consumes input, so the loop over the input ends.\<close>

lemma decode_varint_at_shorter:
  "decode_varint_at shift v bs = Inr (u, rest) \<Longrightarrow> length rest < length bs"
proof (induction bs arbitrary: shift v)
  case Nil
  then show ?case by (simp split: if_splits)
next
  case (Cons b bs)
  show ?case
  proof (cases "unat b < 128")
    case True
    with Cons.prems show ?thesis by (auto simp: Let_def split: if_splits)
  next
    case False
    with Cons.prems have "\<exists>s w. decode_varint_at s w bs = Inr (u, rest)"
      by (auto simp: Let_def split: if_splits)
    then obtain s w where "decode_varint_at s w bs = Inr (u, rest)" by blast
    from Cons.IH [OF this] show ?thesis by simp
  qed
qed

lemma decode_varint_shorter:
  "decode_varint bs = Inr (u, rest) \<Longrightarrow> length rest < length bs"
  unfolding decode_varint_def by (rule decode_varint_at_shorter)

lemma split_at_shorter: "split_at n bs = Inr (x, rest) \<Longrightarrow> length rest \<le> length bs"
  by (auto simp: split_at_def split: if_splits)

lemma decode_length_delimited_shorter:
  "decode_length_delimited bs = Inr (x, rest) \<Longrightarrow> length rest < length bs"
  by (auto simp: decode_length_delimited_def split: sum.splits if_splits
           dest!: decode_varint_shorter split_at_shorter)

lemma decode_value_shorter:
  "decode_value fp bs = Inr (v, rest) \<Longrightarrow> length rest \<le> length bs"
  by (auto simp: decode_value_def split: sum.splits if_splits
           dest!: decode_varint_shorter split_at_shorter decode_length_delimited_shorter)

lemma skip_value_shorter: "skip_value wt bs = Inr rest \<Longrightarrow> length rest \<le> length bs"
  by (auto simp: skip_value_def split: sum.splits if_splits
           dest!: decode_varint_shorter split_at_shorter decode_length_delimited_shorter)

lemma decode_one_shorter:
  "decode_one plan bs m = Inr (rest, m') \<Longrightarrow> length rest < length bs"
  by (auto simp: decode_one_def split: sum.splits option.splits if_splits
           dest!: decode_varint_shorter decode_value_shorter skip_value_shorter)

text \<open>
  Modelled from the spec (4.4, 5): the decoder reads tag after tag until the input is
  used up, merging into the target; on a failure it stops with the target as far as it
  was filled.
\<close>

function UnmarshalVT_sem ::
  "FieldPlan list \<Rightarrow> byte list \<Rightarrow> (string \<times> val) list \<Rightarrow> error option \<times> (string \<times> val) list"
where
  "UnmarshalVT_sem plan bs m =
     (if bs = [] then (None, m)
      else
        (case decode_one plan bs m of
           Inl e \<Rightarrow> (Some e, m)
         | Inr (rest, m') \<Rightarrow> UnmarshalVT_sem plan rest m'))"
  by pat_completeness auto
termination
  by (relation "measure (\<lambda>(plan, bs, m). length bs)") (auto dest: decode_one_shorter)

declare UnmarshalVT_sem.simps [simp del]


subsection \<open>Valid plans and instances\<close>

text \<open>Which unsigned integers a scalar kind can put on the wire.\<close>

definition fits :: "Kind \<Rightarrow> nat \<Rightarrow> bool" where
  "fits kind u \<longleftrightarrow> (if wire_type kind = 5 then u < 2 ^ 32 else u < 2 ^ 64)"

text \<open>
  Modelled from the spec (3, Invariants): the field numbers of a message are unique, and
  so are the names of its fields in the struct; a field number has 29 bits and is not 0.
\<close>

definition valid_plan :: "FieldPlan list \<Rightarrow> bool" where
  "valid_plan plan \<longleftrightarrow>
     distinct (map fp_number plan) \<and> distinct (map fp_name plan)
     \<and> list_all (\<lambda>fp. 0 < fp_number fp \<and> fp_number fp < 2 ^ 29) plan"

text \<open>
  The values a field of the struct can hold, by its kind: an integer its kind can hold,
  a string, which passes the validation when the field is validated, or a slice of
  bytes that ends within its backing array; a length is below \<open>2^63\<close>, Go's \<open>int\<close>.
  With explicit presence a scalar or a string sits behind a pointer, which may be
  \<open>nil\<close>.
\<close>

fun valid_payload :: "FieldPlan \<Rightarrow> val \<Rightarrow> bool" where
  "valid_payload fp (VScalar u) = (is_scalar (fp_kind fp) \<and> fits (fp_kind fp) u)"
| "valid_payload fp (VString s) =
     (fp_kind fp = StringKind \<and> length s < 2 ^ 63
      \<and> (fp_strict fp \<longrightarrow> ValidateUTF8 (bytes_of_string s)))"
| "valid_payload fp (VBytes s) =
     (fp_kind fp = BytesKind \<and> len s < 2 ^ 63
      \<and> (case s of NilSlice \<Rightarrow> True | Slice b n \<Rightarrow> n \<le> length b))"
| "valid_payload fp _ = False"

definition valid_value :: "FieldPlan \<Rightarrow> val \<Rightarrow> bool" where
  "valid_value fp v =
     (if fp_presence fp = Explicit \<and> fp_kind fp \<noteq> BytesKind
      then (case v of VPointer None \<Rightarrow> True | VPointer (Some x) \<Rightarrow> valid_payload fp x | _ \<Rightarrow> False)
      else valid_payload fp v)"

definition valid_instance :: "FieldPlan list \<Rightarrow> (string \<times> val) list \<Rightarrow> bool" where
  "valid_instance plan m \<longleftrightarrow>
     list_all (\<lambda>fp. case map_of m (fp_name fp) of None \<Rightarrow> False | Some v \<Rightarrow> valid_value fp v) plan"

text \<open>
  What the decoder stores for an encoded value: bytes come back as a new slice of
  exactly the encoded length. \<open>store\<close> is the effect on the target of decoding what
  one field of \<open>m\<close> put on the wire.
\<close>

fun as_decoded :: "val \<Rightarrow> val" where
  "as_decoded (VBytes s) = VBytes (Slice (slice_bytes s) (len s))"
| "as_decoded v = v"

definition store :: "(string \<times> val) list \<Rightarrow> (string \<times> val) list \<Rightarrow> FieldPlan \<Rightarrow> (string \<times> val) list" where
  "store m st fp =
     (case map_of m (fp_name fp) of
        None \<Rightarrow> st
      | Some v \<Rightarrow>
          (case emitted (fp_presence fp) v of
             None \<Rightarrow> st
           | Some x \<Rightarrow> assign fp (as_decoded x) st))"
subsection \<open>Generated messages as the codecs see them\<close>

text \<open>
  A pointer to a generated message as an \<open>interface{}\<close> value: the state it points to is
  the instance together with the pools. It has \<open>MarshalVT\<close>, \<open>UnmarshalVT\<close> and
  \<open>Reset\<close>, and it has \<open>ResetVT\<close> exactly when the pool generator printed one for its
  type. (The method is used here on messages whose \<open>ResetVT\<close> calls no other method and
  cannot panic; the last case is never reached for them.)
\<close>

definition generated_message :: "decl list \<Rightarrow> string \<Rightarrow> FieldPlan list \<Rightarrow> (inst \<times> pools) iface" where
  "generated_message decls T plan =
     \<lparr>type_name = ''*'' @ T,
      MarshalVT = Some (\<lambda>(i, p). (Some (MarshalVT_sem plan (i_fields i)), None)),
      UnmarshalVT = Some (\<lambda>data (i, p).
        case UnmarshalVT_sem plan data (i_fields i) of (e, fs) \<Rightarrow> (e, (Inst (i_type i) fs, p))),
      ResetVT =
        (case lookup_ResetVT decls T of
           None \<Rightarrow> None
         | Some body \<Rightarrow>
             Some (\<lambda>(i, p). case call_ResetVT decls 1 T (Some i) p of
                               Inr (Some i', p') \<Rightarrow> (i', p')
                             | _ \<Rightarrow> (i, p))),
      Reset = Some (\<lambda>(i, p). (Reset_sem i, p))\<rparr>"

subsection \<open>Example messages\<close>

text \<open>
  The field of the test \<open>TestInvalidUTF8Rejected\<close>: \<open>optional string\<close>, number 14,
  validated. A pool-eligible message \<open>Blob\<close> with one \<open>optional bytes\<close> field, number
  1: an instance that holds three bytes, the same instance after \<open>ResetVT\<close>, and a new
  one. The six fields of the messages of the presence tests, numbered here from 1, with
  either presence; an instance with every field zero, and one whose \<open>CurrencyCode\<close>,
  \<open>Units\<close> and \<open>Amount\<close> point to values, the last two to zero.
\<close>

definition OptionalString :: FieldPlan where
  "OptionalString =
     \<lparr>fp_name = ''OptionalString'', fp_number = 14, fp_kind = StringKind,
      fp_presence = Explicit, fp_strict = True\<rparr>"

definition Blob_Data :: FieldPlan where
  "Blob_Data =
     \<lparr>fp_name = ''Data'', fp_number = 1, fp_kind = BytesKind,
      fp_presence = Explicit, fp_strict = False\<rparr>"

definition Blob_msg :: Message where
  "Blob_msg = Message (ident ''Blob'') False API_OPEN (Some True)
     [Field ''Data'' (ident ''Data'') BytesKind False False True False
        (Some \<lparr>oneof_GoName = ''XData'', oneof_IsSynthetic = True\<rparr>) None None] []"

definition Blob_decls :: "decl list" where
  "Blob_decls = message no_lists (gen_with id) Blob_msg"

definition Blob_value :: "(inst \<times> pools) iface" where
  "Blob_value = generated_message Blob_decls ''Blob'' [Blob_Data]"

definition a_Blob :: inst where
  "a_Blob = Inst ''Blob'' [(''Data'', VBytes (Slice [1, 2, 3] 3))]"

definition a_Blob_reset :: inst where
  "a_Blob_reset = Inst ''Blob'' [(''Data'', VBytes (Slice [1, 2, 3] 0))]"

definition new_Blob :: inst where
  "new_Blob = Inst ''Blob'' (fresh [Blob_Data])"

definition presence_plan :: "Presence \<Rightarrow> FieldPlan list" where
  "presence_plan pr =
     [\<lparr>fp_name = ''CurrencyCode'', fp_number = 1, fp_kind = StringKind, fp_presence = pr, fp_strict = True\<rparr>,
      \<lparr>fp_name = ''Units'', fp_number = 2, fp_kind = Int64Kind, fp_presence = pr, fp_strict = False\<rparr>,
      \<lparr>fp_name = ''Scale'', fp_number = 3, fp_kind = Int32Kind, fp_presence = pr, fp_strict = False\<rparr>,
      \<lparr>fp_name = ''IsActive'', fp_number = 4, fp_kind = BoolKind, fp_presence = pr, fp_strict = False\<rparr>,
      \<lparr>fp_name = ''Rate'', fp_number = 5, fp_kind = FloatKind, fp_presence = pr, fp_strict = False\<rparr>,
      \<lparr>fp_name = ''Amount'', fp_number = 6, fp_kind = DoubleKind, fp_presence = pr, fp_strict = False\<rparr>]"

definition all_zero :: "(string \<times> val) list" where
  "all_zero =
     [(''CurrencyCode'', VString []), (''Units'', VScalar 0), (''Scale'', VScalar 0),
      (''IsActive'', VScalar 0), (''Rate'', VScalar 0), (''Amount'', VScalar 0)]"

definition zero_units :: "(string \<times> val) list" where
  "zero_units =
     [(''CurrencyCode'', VPointer (Some (VString ''EUR''))), (''Units'', VPointer (Some (VScalar 0))),
      (''Scale'', VPointer None), (''IsActive'', VPointer None), (''Rate'', VPointer None),
      (''Amount'', VPointer (Some (VScalar 0)))]"

section \<open>How the generated reset treats the receiver\<close>

subsection \<open>Single statements\<close>

lemma field_set_field [simp]:
  "field (set_field n v st) F = (if F = n then Some v else field st F)"
  by (simp add: field_def set_field_def update_conv')

lemma field_upd [simp]:
  "field (st\<lparr>pools := p\<rparr>) F = field st F"
  "field (st\<lparr>f_vars := fv\<rparr>) F = field st F"
  "field (st\<lparr>saved_vars := sv\<rparr>) F = field st F"
  by (simp_all add: field_def)

lemma set_field_sel [simp]:
  "f_vars (set_field n v st) = f_vars st"
  "saved_vars (set_field n v st) = saved_vars st"
  "pools (set_field n v st) = pools st"
  by (simp_all add: set_field_def)

lemma reset_elems_length:
  "reset_elems pooled cal xs p = Inr (es, p') \<Longrightarrow> length es = length xs"
  by (induction xs arbitrary: es p) (auto split: sum.splits prod.splits)

lemma cap_reslice0 [simp]: "cap (reslice0 s) = cap s"
  by (cases s) auto

lemma len_reslice0 [simp]: "len (reslice0 s) = 0"
  by (cases s) auto

lemma cap_clear_slice [simp]: "cap (clear_slice s) = cap s"
  by (cases s) auto

lemma exec_before_reset_shape:
  assumes "exec cal s st = Inr st'" and "before_reset s"
  shows "handle_cap (field st' F) = handle_cap (field st F)
       \<and> is_oneof (field st' F) = is_oneof (field st F)"
  using assms
  by (cases s)
     (auto simp: Let_def
           split: option.splits val.splits slice.splits sum.splits prod.splits if_splits
                  wrapper.splits
           dest!: reset_elems_length)

lemma exec_plain_vars:
  assumes "exec cal s st = Inr st'" and "plain s"
  shows "f_vars st' = f_vars st \<and> saved_vars st' = saved_vars st"
  using assms
  by (cases s)
     (auto split: option.splits val.splits slice.splits sum.splits prod.splits if_splits
                  wrapper.splits)

lemma plain_before_reset: "plain s \<Longrightarrow> before_reset s"
  by (cases s) auto

lemma exec_list_append:
  "exec_list cal (xs @ ys) st =
     (case exec_list cal xs st of Inl x \<Rightarrow> Inl x | Inr st1 \<Rightarrow> exec_list cal ys st1)"
  by (induction xs arbitrary: st) (auto split: sum.splits)

lemma exec_list_appendD:
  "exec_list cal (xs @ ys) st = Inr st' \<Longrightarrow>
     \<exists>st1. exec_list cal xs st = Inr st1 \<and> exec_list cal ys st1 = Inr st'"
  by (simp add: exec_list_append split: sum.splits)

lemma same_shape_step:
  "same_shape fs0 st \<Longrightarrow> exec cal s st = Inr st' \<Longrightarrow> before_reset s \<Longrightarrow> same_shape fs0 st'"
  unfolding same_shape_def using exec_before_reset_shape by metis

lemma exec_list_plain:
  "exec_list cal ss st = Inr st' \<Longrightarrow> list_all plain ss \<Longrightarrow> same_shape fs0 st \<Longrightarrow>
     same_shape fs0 st' \<and> f_vars st' = f_vars st \<and> saved_vars st' = saved_vars st"
proof (induction ss arbitrary: st)
  case Nil
  then show ?case by simp
next
  case (Cons s ss)
  from Cons.prems(1) obtain st1 where s1: "exec cal s st = Inr st1"
    and s2: "exec_list cal ss st1 = Inr st'"
    by (auto split: sum.splits)
  from Cons.prems(2) have ps: "plain s" and pss: "list_all plain ss" by simp_all
  have sh: "same_shape fs0 st1"
    using same_shape_step [OF Cons.prems(3) s1 plain_before_reset [OF ps]] .
  from Cons.IH [OF s2 pss sh] exec_plain_vars [OF s1 ps] show ?case by simp
qed

lemma exec_SaveTrunc:
  assumes "exec cal (SaveTrunc k F) st = Inr st'"
  shows "\<exists>v. st' = st\<lparr>f_vars := (f_vars st)(k \<mapsto> v)\<rparr>
            \<and> handle_len (Some v) = Some 0
            \<and> handle_cap (Some v) = handle_cap (field st F)
            \<and> handle_cap (field st F) \<noteq> None"
  using assms by (auto split: option.splits val.splits)

lemma field_step_shape:
  assumes "field_step cfg g f saved ob = (out, saved', ob')"
  shows "\<exists>pre. list_all plain pre
           \<and> (if keeps_handle f
               then out = pre @ [SaveTrunc (length saved) (f_GoName f)] \<and> saved' = saved @ [f]
               else out = pre \<and> saved' = saved)
           \<and> ob' = (if keeps_wrapper f then ob @ [f] else ob)"
  using assms
  unfolding field_step_def keeps_handle_def keeps_wrapper_def Let_def
  by (cases "f_Kind f") (auto split: if_splits)

lemma field_loop_exec:
  assumes "field_loop cfg g fs saved ob = (out, saved', ob')"
    and "exec_list cal out st = Inr st'"
    and "same_shape fs0 st"
    and "saved_ok fs0 saved st"
  shows "same_shape fs0 st' \<and> saved_ok fs0 saved' st' \<and> saved_vars st' = saved_vars st
       \<and> set saved \<subseteq> set saved' \<and> set ob \<subseteq> set ob'
       \<and> (\<forall>f \<in> set fs. keeps_handle f \<longrightarrow> f \<in> set saved')
       \<and> (\<forall>f \<in> set fs. keeps_wrapper f \<longrightarrow> f \<in> set ob')"
  using assms
proof (induction fs arbitrary: saved ob out st)
  case Nil
  then show ?case by simp
next
  case (Cons f fs)
  obtain o1 s1 ob1 where step: "field_step cfg g f saved ob = (o1, s1, ob1)"
    by (cases "field_step cfg g f saved ob") auto
  obtain o2 s2 ob2 where loop: "field_loop cfg g fs s1 ob1 = (o2, s2, ob2)"
    by (cases "field_loop cfg g fs s1 ob1") auto
  from Cons.prems(1) step loop have out: "out = o1 @ o2" and s2: "saved' = s2" and ob2: "ob' = ob2"
    by simp_all
  from Cons.prems(2) out obtain st1 where e1: "exec_list cal o1 st = Inr st1"
    and e2: "exec_list cal o2 st1 = Inr st'"
    by (auto dest: exec_list_appendD)
  from field_step_shape [OF step] obtain pre where pre: "list_all plain pre"
    and o1: "if keeps_handle f
             then o1 = pre @ [SaveTrunc (length saved) (f_GoName f)] \<and> s1 = saved @ [f]
             else o1 = pre \<and> s1 = saved"
    and ob1: "ob1 = (if keeps_wrapper f then ob @ [f] else ob)"
    by blast
  have mid: "same_shape fs0 st1 \<and> saved_ok fs0 s1 st1 \<and> saved_vars st1 = saved_vars st"
  proof (cases "keeps_handle f")
    case False
    with o1 have "o1 = pre" "s1 = saved" by simp_all
    with e1 pre Cons.prems(3,4) exec_list_plain [of cal pre st st1 fs0]
    show ?thesis by (simp add: saved_ok_def)
  next
    case True
    with o1 have o1': "o1 = pre @ [SaveTrunc (length saved) (f_GoName f)]"
      and s1': "s1 = saved @ [f]" by simp_all
    from e1 o1' obtain sta where ea: "exec_list cal pre st = Inr sta"
      and eb: "exec cal (SaveTrunc (length saved) (f_GoName f)) sta = Inr st1"
      by (auto dest!: exec_list_appendD split: sum.splits)
    from exec_list_plain [OF ea pre Cons.prems(3)]
    have sha: "same_shape fs0 sta" and fva: "f_vars sta = f_vars st"
      and sva: "saved_vars sta = saved_vars st" by simp_all
    from exec_SaveTrunc [OF eb] obtain v where
      st1: "st1 = sta\<lparr>f_vars := (f_vars sta)(length saved \<mapsto> v)\<rparr>"
      and vl: "handle_len (Some v) = Some 0"
      and vc: "handle_cap (Some v) = handle_cap (field sta (f_GoName f))"
      and vn: "handle_cap (field sta (f_GoName f)) \<noteq> None"
      by blast
    have sh1: "same_shape fs0 st1"
      using sha st1 by (simp add: same_shape_def)
    have "saved_ok fs0 s1 st1"
      unfolding saved_ok_def
    proof (intro allI impI)
      fix k assume k: "k < length s1"
      show "good_val fs0 (f_GoName (s1 ! k)) (f_vars st1 k)"
      proof (cases "k < length saved")
        case True
        with Cons.prems(4) have "good_val fs0 (f_GoName (saved ! k)) (f_vars st k)"
          by (simp add: saved_ok_def)
        with True st1 s1' fva show ?thesis by (simp add: nth_append)
      next
        case False
        with k s1' have keq: "k = length saved" by simp
        from sha vc vn vl have "good_val fs0 (f_GoName f) (Some v)"
          by (simp add: good_val_def same_shape_def)
        with keq st1 s1' show ?thesis by simp
      qed
    qed
    with sh1 st1 sva show ?thesis by simp
  qed
  from mid have sh1: "same_shape fs0 st1" and ok1: "saved_ok fs0 s1 st1"
    and sv1: "saved_vars st1 = saved_vars st" by simp_all
  from loop s2 ob2 have loop': "field_loop cfg g fs s1 ob1 = (o2, saved', ob')"
    by simp
  from Cons.IH [OF loop' e2 sh1 ok1]
  have ih: "same_shape fs0 st'" "saved_ok fs0 saved' st'" "saved_vars st' = saved_vars st1"
    "set s1 \<subseteq> set saved'" "set ob1 \<subseteq> set ob'"
    "\<forall>f \<in> set fs. keeps_handle f \<longrightarrow> f \<in> set saved'"
    "\<forall>f \<in> set fs. keeps_wrapper f \<longrightarrow> f \<in> set ob'"
    by simp_all
  from o1 have a: "set saved \<subseteq> set s1" "keeps_handle f \<longrightarrow> f \<in> set s1"
    by (auto split: if_splits)
  from ob1 have b: "set ob \<subseteq> set ob1" "keeps_wrapper f \<longrightarrow> f \<in> set ob1"
    by (auto split: if_splits)
  from ih a b sv1 show ?case by auto
qed

lemma is_save_before_reset: "is_save s \<Longrightarrow> before_reset s"
  by (cases s) auto

lemma exec_save_vars:
  assumes "exec cal s st = Inr st'" and "is_save s"
  shows "f_vars st' = f_vars st
       \<and> (\<forall>G w. saved_vars st' G = Some w \<longrightarrow> saved_vars st G = Some w \<or> is_oneof (field st G))"
  using assms
  by (cases s) (auto simp: Let_def split: option.splits val.splits wrapper.splits if_splits)

lemma exec_list_saves:
  "exec_list cal ss st = Inr st' \<Longrightarrow> list_all is_save ss \<Longrightarrow> same_shape fs0 st \<Longrightarrow>
   sv_ok fs0 st \<Longrightarrow>
     same_shape fs0 st' \<and> f_vars st' = f_vars st \<and> sv_ok fs0 st'"
proof (induction ss arbitrary: st)
  case Nil
  then show ?case by simp
next
  case (Cons s ss)
  from Cons.prems(1) obtain st1 where s1: "exec cal s st = Inr st1"
    and s2: "exec_list cal ss st1 = Inr st'"
    by (auto split: sum.splits)
  from Cons.prems(2) have ps: "is_save s" and pss: "list_all is_save ss" by simp_all
  have sh: "same_shape fs0 st1"
    using same_shape_step [OF Cons.prems(3) s1 is_save_before_reset [OF ps]] .
  have sv: "sv_ok fs0 st1"
    using exec_save_vars [OF s1 ps] Cons.prems(3,4)
    unfolding sv_ok_def same_shape_def by metis
  from Cons.IH [OF s2 pss sh sv] exec_save_vars [OF s1 ps] show ?case by simp
qed

lemma save_oneofs_saves: "list_all is_save (save_oneofs g T ob)"
  by (auto simp: save_oneofs_def save_group_def list_all_iff)

lemma exec_restores:
  assumes "exec_list cal (map (\<lambda>(i, f). Restore (f_GoName f) i) (enumerate n xs)) st = Inr st'"
    and "\<forall>j < length xs. good_val fs0 (f_GoName (xs ! j)) (f_vars st (n + j))"
  shows "f_vars st' = f_vars st \<and> saved_vars st' = saved_vars st
       \<and> (\<forall>F. (F \<in> f_GoName ` set xs \<or> good_val fs0 F (field st F))
                \<longrightarrow> good_val fs0 F (field st' F))"
  using assms
proof (induction xs arbitrary: n st)
  case Nil
  then show ?case by simp
next
  case (Cons x xs)
  from Cons.prems(1) obtain st1 where s1: "exec cal (Restore (f_GoName x) n) st = Inr st1"
    and s2: "exec_list cal (map (\<lambda>(i, f). Restore (f_GoName f) i) (enumerate (Suc n) xs)) st1 = Inr st'"
    by (auto split: sum.splits)
  from s1 obtain v where v: "f_vars st n = Some v" and st1: "st1 = set_field (f_GoName x) v st"
    by (auto split: option.splits)
  from Cons.prems(2) have g0: "good_val fs0 (f_GoName x) (f_vars st n)"
    by force
  have shift: "\<forall>j < length xs. good_val fs0 (f_GoName (xs ! j)) (f_vars st1 (Suc n + j))"
  proof (intro allI impI)
    fix j assume "j < length xs"
    then have "Suc j < length (x # xs)" by simp
    with Cons.prems(2) have "good_val fs0 (f_GoName ((x # xs) ! Suc j)) (f_vars st (n + Suc j))"
      by blast
    then show "good_val fs0 (f_GoName (xs ! j)) (f_vars st1 (Suc n + j))"
      using st1 by simp
  qed
  from Cons.IH [OF s2 shift]
  have ih: "f_vars st' = f_vars st1" "saved_vars st' = saved_vars st1"
    "\<forall>F. (F \<in> f_GoName ` set xs \<or> good_val fs0 F (field st1 F)) \<longrightarrow> good_val fs0 F (field st' F)"
    by simp_all
  have keep: "good_val fs0 F (field st F) \<Longrightarrow> good_val fs0 F (field st1 F)" for F
    using st1 g0 v by simp
  have new: "good_val fs0 (f_GoName x) (field st1 (f_GoName x))"
    using st1 g0 v by simp
  from ih keep new st1 show ?case by auto
qed

lemma is_oneof_no_cap: "is_oneof x \<Longrightarrow> handle_cap x = None"
  by (cases x rule: is_oneof.cases) auto

lemma exec_oneof_restores:
  "exec_list cal (map OneofRestore Gs) st = Inr st' \<Longrightarrow> sv_ok fs0 st \<Longrightarrow>
     (\<forall>F. handle_cap (fs0 F) \<noteq> None \<longrightarrow> field st' F = field st F)"
proof (induction Gs arbitrary: st)
  case Nil
  then show ?case by simp
next
  case (Cons G Gs)
  from Cons.prems(1) obtain st1 where s1: "exec cal (OneofRestore G) st = Inr st1"
    and s2: "exec_list cal (map OneofRestore Gs) st1 = Inr st'"
    by (auto split: sum.splits)
  from s1 obtain w where w: "saved_vars st G = Some w" and st1: "st1 = set_field G (VOneof w) st"
    by (auto split: option.splits)
  from w Cons.prems(2) have "is_oneof (fs0 G)" by (auto simp: sv_ok_def)
  then have nocap: "handle_cap (fs0 G) = None" by (rule is_oneof_no_cap)
  have "sv_ok fs0 st1" using Cons.prems(2) st1 by (simp add: sv_ok_def)
  from Cons.IH [OF s2 this] have "\<forall>F. handle_cap (fs0 F) \<noteq> None \<longrightarrow> field st' F = field st1 F" .
  with st1 nocap show ?case by auto
qed

lemma restore_oneofs_map: "\<exists>Gs. restore_oneofs g ob = map OneofRestore Gs"
  by (auto simp: restore_oneofs_def intro: exI [of _ "[]"])

lemma run_body_keeps_handles:
  assumes run: "run_body cal (ResetVT_body cfg g msg) m p = Inr (m', p')"
    and fld: "fld \<in> set (m_Fields msg)" and kh: "keeps_handle fld"
  shows "handle_len (get_field m' (f_GoName fld)) = Some 0
       \<and> handle_cap (get_field m' (f_GoName fld)) = handle_cap (get_field m (f_GoName fld))
       \<and> handle_cap (get_field m (f_GoName fld)) \<noteq> None
       \<and> i_type m' = i_type m"
proof -
  define st0 where "st0 = \<lparr>self = i_fields m, f_vars = Map.empty, saved_vars = Map.empty, pools = p\<rparr>"
  define fs0 where "fs0 = field st0"
  obtain out saved ob where loop: "field_loop cfg g (m_Fields msg) [] [] = (out, saved, ob)"
    by (cases "field_loop cfg g (m_Fields msg) [] []") auto
  define T where "T = QualifiedGoIdent g (m_GoIdent msg)"
  have body: "ResetVT_body cfg g msg =
      out @ (save_oneofs g T ob @ (ResetAll # (restore_saved saved @ restore_oneofs g ob)))"
    by (simp add: ResetVT_body_def loop T_def)
  from run obtain stE where ex: "exec_list cal (ResetVT_body cfg g msg) st0 = Inr stE"
    and m': "m' = Inst (i_type m) (self stE)"
    by (auto simp: run_body_def st0_def split: sum.splits)
  from ex body obtain st1 st2 st3 st4 where
    e1: "exec_list cal out st0 = Inr st1"
    and e2: "exec_list cal (save_oneofs g T ob) st1 = Inr st2"
    and e3: "exec cal ResetAll st2 = Inr st3"
    and e4: "exec_list cal (restore_saved saved) st3 = Inr st4"
    and e5: "exec_list cal (restore_oneofs g ob) st4 = Inr stE"
    by (auto dest!: exec_list_appendD split: sum.splits)
  have sh0: "same_shape fs0 st0" by (simp add: same_shape_def fs0_def)
  have ok0: "saved_ok fs0 [] st0" by (simp add: saved_ok_def)
  from field_loop_exec [OF loop e1 sh0 ok0]
  have sh1: "same_shape fs0 st1" and ok1: "saved_ok fs0 saved st1"
    and sv1: "saved_vars st1 = saved_vars st0"
    and mem: "fld \<in> set saved"
    using fld kh by auto
  have svok1: "sv_ok fs0 st1" using sv1 by (simp add: sv_ok_def st0_def)
  from exec_list_saves [OF e2 save_oneofs_saves sh1 svok1]
  have fv2: "f_vars st2 = f_vars st1" and svok2: "sv_ok fs0 st2" by simp_all
  from e3 have st3: "st3 = st2\<lparr>self := zero_fields (self st2)\<rparr>" by simp
  have fv3: "f_vars st3 = f_vars st1" using st3 fv2 by simp
  have svok3: "sv_ok fs0 st3" using st3 svok2 by (simp add: sv_ok_def)
  have hyp: "\<forall>j < length saved. good_val fs0 (f_GoName (saved ! j)) (f_vars st3 (0 + j))"
    using ok1 fv3 by (simp add: saved_ok_def)
  from exec_restores [OF e4 [unfolded restore_saved_def] hyp]
  have sv4: "saved_vars st4 = saved_vars st3"
    and g4: "good_val fs0 (f_GoName fld) (field st4 (f_GoName fld))"
    using mem by auto
  have svok4: "sv_ok fs0 st4" using sv4 svok3 by (simp add: sv_ok_def)
  from restore_oneofs_map obtain Gs where Gs: "restore_oneofs g ob = map OneofRestore Gs" by blast
  from g4 have cap0: "handle_cap (fs0 (f_GoName fld)) \<noteq> None" by (simp add: good_val_def)
  from exec_oneof_restores [OF e5 [unfolded Gs] svok4] cap0
  have "field stE (f_GoName fld) = field st4 (f_GoName fld)" by blast
  with g4 have gE: "good_val fs0 (f_GoName fld) (field stE (f_GoName fld))" by simp
  have a: "get_field m' (f_GoName fld) = field stE (f_GoName fld)"
    by (simp add: m' get_field_def field_def)
  have b: "get_field m (f_GoName fld) = fs0 (f_GoName fld)"
    by (simp add: fs0_def st0_def get_field_def field_def)
  from gE a b m' show ?thesis by (simp add: good_val_def)
qed

lemma exec_keeps_bytes_wrapper:
  assumes "exec cal s st = Inr st'" and "loop_stmt s"
    and "field st G = Some (VOneof (Some (Wrapper a W (VBytes b))))"
  shows "field st' G = Some (VOneof (Some (Wrapper a W (VBytes b))))
       \<and> saved_vars st' = saved_vars st"
  using assms
  by (cases s)
     (auto split: option.splits val.splits slice.splits sum.splits prod.splits if_splits
                  wrapper.splits)

lemma exec_list_keeps_bytes_wrapper:
  "exec_list cal ss st = Inr st' \<Longrightarrow> list_all loop_stmt ss \<Longrightarrow>
   field st G = Some (VOneof (Some (Wrapper a W (VBytes b)))) \<Longrightarrow>
     field st' G = Some (VOneof (Some (Wrapper a W (VBytes b)))) \<and> saved_vars st' = saved_vars st"
proof (induction ss arbitrary: st)
  case Nil
  then show ?case by simp
next
  case (Cons s ss)
  from Cons.prems(1) obtain st1 where s1: "exec cal s st = Inr st1"
    and s2: "exec_list cal ss st1 = Inr st'"
    by (auto split: sum.splits)
  from Cons.prems(2) have ps: "loop_stmt s" and pss: "list_all loop_stmt ss" by simp_all
  from exec_keeps_bytes_wrapper [OF s1 ps Cons.prems(3)]
  have k: "field st1 G = Some (VOneof (Some (Wrapper a W (VBytes b))))"
    and sv: "saved_vars st1 = saved_vars st" by simp_all
  from Cons.IH [OF s2 pss k] sv show ?case by simp
qed

lemma plain_loop_stmt: "plain s \<Longrightarrow> loop_stmt s"
  by (cases s) auto

lemma field_loop_stmts:
  "field_loop cfg g fs saved ob = (out, saved', ob') \<Longrightarrow> list_all loop_stmt out"
proof (induction fs arbitrary: saved ob out saved' ob')
  case Nil
  then show ?case by simp
next
  case (Cons f fs)
  obtain o1 s1 ob1 where step: "field_step cfg g f saved ob = (o1, s1, ob1)"
    by (cases "field_step cfg g f saved ob") auto
  obtain o2 s2 ob2 where loop: "field_loop cfg g fs s1 ob1 = (o2, s2, ob2)"
    by (cases "field_loop cfg g fs s1 ob1") auto
  from Cons.prems step loop have out: "out = o1 @ o2" by simp
  from field_step_shape [OF step] have "list_all loop_stmt o1"
    by (auto simp: list_all_iff plain_loop_stmt split: if_splits)
  with Cons.IH [OF loop] out show ?case by simp
qed

lemma oneofGroups_Nil: "oneofGroups [] = Map.empty"
  by (simp add: oneofGroups_def)

lemma oneofGroups_snoc: "oneofGroups (xs @ [x]) = add_to_group (oneofGroups xs) x"
  by (simp add: oneofGroups_def)

lemma oneofGroups_eq:
  "oneofGroups ob k =
     (if k \<in> Oneof_GoName ` set ob then Some (filter (\<lambda>f. Oneof_GoName f = k) ob) else None)"
proof (induction ob arbitrary: k rule: rev_induct)
  case Nil
  show ?case by (simp add: oneofGroups_Nil)
next
  case (snoc x xs)
  show ?case
    by (auto simp: oneofGroups_snoc add_to_group_def snoc.IH empty_filter_conv) (metis imageI)
qed

lemma set_group_keys: "set (group_keys ob) = Oneof_GoName ` set ob"
  by (simp add: group_keys_def)

lemma distinct_group_keys: "distinct (group_keys ob)"
  by (simp add: group_keys_def)

lemma range_order_set: "is_range_order ord \<Longrightarrow> distinct ks \<Longrightarrow> set (ord ks) = set ks"
  unfolding is_range_order_def by (metis mset_eq_setD)

lemma reslice0_idem [simp]: "reslice0 (reslice0 s) = reslice0 s"
  by (cases s) auto

lemma map_of_zero_fields: "map_of (zero_fields fs) F = map_option zero (map_of fs F)"
  by (induction fs) (auto simp: zero_fields_def)

lemma exec_save_group:
  assumes ex: "exec cal (save_group g T ob k) st = Inr st'"
    and mem: "fld \<in> set ob"
    and slot: "field st (Oneof_GoName fld) = Some (VOneof (Some (Wrapper a (QualifiedGoIdent g (f_GoIdent fld)) (VBytes x))))"
    and x: "x = b \<or> x = reslice0 b"
  shows "field st' (Oneof_GoName fld) =
           Some (VOneof (Some (Wrapper a (QualifiedGoIdent g (f_GoIdent fld))
                                 (VBytes (if k = Oneof_GoName fld then reslice0 b else x)))))
       \<and> saved_vars st' (Oneof_GoName fld) =
           (if k = Oneof_GoName fld
            then Some (Some (Wrapper a (QualifiedGoIdent g (f_GoIdent fld)) (VBytes (reslice0 b))))
            else saved_vars st (Oneof_GoName fld))"
proof (cases "k = Oneof_GoName fld")
  case True
  have "QualifiedGoIdent g (f_GoIdent fld)
          \<in> fst ` set (map (\<lambda>field. (QualifiedGoIdent g (f_GoIdent field), f_GoName field))
                          (case oneofGroups ob k of None \<Rightarrow> [] | Some fs \<Rightarrow> fs))"
    using mem True by (force simp: oneofGroups_eq)
  with ex slot x True show ?thesis
    by (auto simp: save_group_def Let_def)
next
  case False
  with ex slot show ?thesis
    by (auto simp: save_group_def Let_def split: option.splits val.splits wrapper.splits if_splits)
qed

lemma exec_save_groups:
  assumes "exec_list cal (map (save_group g T ob) ks) st = Inr st'"
    and "fld \<in> set ob"
    and "field st (Oneof_GoName fld) = Some (VOneof (Some (Wrapper a (QualifiedGoIdent g (f_GoIdent fld)) (VBytes x))))"
    and "x = b \<or> x = reslice0 b"
    and "Oneof_GoName fld \<in> set ks
         \<or> (x = reslice0 b \<and> saved_vars st (Oneof_GoName fld)
              = Some (Some (Wrapper a (QualifiedGoIdent g (f_GoIdent fld)) (VBytes (reslice0 b)))))"
  shows "field st' (Oneof_GoName fld) =
           Some (VOneof (Some (Wrapper a (QualifiedGoIdent g (f_GoIdent fld)) (VBytes (reslice0 b)))))
       \<and> saved_vars st' (Oneof_GoName fld) =
           Some (Some (Wrapper a (QualifiedGoIdent g (f_GoIdent fld)) (VBytes (reslice0 b))))"
  using assms
proof (induction ks arbitrary: st x)
  case Nil
  then show ?case by simp
next
  case (Cons k ks)
  from Cons.prems(1) obtain st1 where s1: "exec cal (save_group g T ob k) st = Inr st1"
    and s2: "exec_list cal (map (save_group g T ob) ks) st1 = Inr st'"
    by (auto split: sum.splits)
  let ?x1 = "if k = Oneof_GoName fld then reslice0 b else x"
  from exec_save_group [OF s1 Cons.prems(2) Cons.prems(3) Cons.prems(4)]
  have f1: "field st1 (Oneof_GoName fld) =
              Some (VOneof (Some (Wrapper a (QualifiedGoIdent g (f_GoIdent fld)) (VBytes ?x1))))"
    and v1: "saved_vars st1 (Oneof_GoName fld) =
           (if k = Oneof_GoName fld
            then Some (Some (Wrapper a (QualifiedGoIdent g (f_GoIdent fld)) (VBytes (reslice0 b))))
            else saved_vars st (Oneof_GoName fld))"
    by simp_all
  have x1: "?x1 = b \<or> ?x1 = reslice0 b" using Cons.prems(4) by auto
  have c1: "Oneof_GoName fld \<in> set ks
         \<or> (?x1 = reslice0 b \<and> saved_vars st1 (Oneof_GoName fld)
              = Some (Some (Wrapper a (QualifiedGoIdent g (f_GoIdent fld)) (VBytes (reslice0 b)))))"
    using Cons.prems(5) v1 by auto
  from Cons.IH [OF s2 Cons.prems(2) f1 x1 c1] show ?case .
qed

lemma exec_restores_dom:
  "exec_list cal (map (\<lambda>(i, f). Restore (f_GoName f) i) (enumerate n xs)) st = Inr st' \<Longrightarrow>
   field st G \<noteq> None \<Longrightarrow> field st' G \<noteq> None"
proof (induction xs arbitrary: n st)
  case Nil
  then show ?case by simp
next
  case (Cons x xs)
  from Cons.prems(1) obtain st1 where s1: "exec cal (Restore (f_GoName x) n) st = Inr st1"
    and s2: "exec_list cal (map (\<lambda>(i, f). Restore (f_GoName f) i) (enumerate (Suc n) xs)) st1 = Inr st'"
    by (auto split: sum.splits)
  from s1 Cons.prems(2) have "field st1 G \<noteq> None"
    by (auto split: option.splits)
  from Cons.IH [OF s2 this] show ?case .
qed

lemma exec_oneof_restores_slot:
  "exec_list cal (map OneofRestore Gs) st = Inr st' \<Longrightarrow> saved_vars st G = Some w \<Longrightarrow>
   G \<in> set Gs \<or> field st G = Some (VOneof w) \<Longrightarrow> field st' G = Some (VOneof w)"
proof (induction Gs arbitrary: st)
  case Nil
  then show ?case by simp
next
  case (Cons k Gs)
  from Cons.prems(1) obtain st1 where s1: "exec cal (OneofRestore k) st = Inr st1"
    and s2: "exec_list cal (map OneofRestore Gs) st1 = Inr st'"
    by (auto split: sum.splits)
  from s1 obtain w' where w': "saved_vars st k = Some w'" and st1: "st1 = set_field k (VOneof w') st"
    by (auto split: option.splits)
  have sv: "saved_vars st1 G = Some w" using st1 Cons.prems(2) by simp
  have "G \<in> set Gs \<or> field st1 G = Some (VOneof w)"
    using Cons.prems(2,3) w' st1 by auto
  from Cons.IH [OF s2 sv this] show ?case .
qed

lemma run_body_keeps_wrapper:
  assumes run: "run_body cal (ResetVT_body cfg g msg) m p = Inr (m', p')"
    and fld: "fld \<in> set (m_Fields msg)" and kw: "keeps_wrapper fld"
    and o1: "is_range_order (range_save g)" and o2: "is_range_order (range_restore g)"
    and slot: "get_field m (Oneof_GoName fld)
                 = Some (VOneof (Some (Wrapper a (QualifiedGoIdent g (f_GoIdent fld)) (VBytes b))))"
  shows "get_field m' (Oneof_GoName fld)
           = Some (VOneof (Some (Wrapper a (QualifiedGoIdent g (f_GoIdent fld)) (VBytes (reslice0 b)))))"
proof -
  let ?G = "Oneof_GoName fld"
  let ?w1 = "Wrapper a (QualifiedGoIdent g (f_GoIdent fld)) (VBytes (reslice0 b))"
  define st0 where "st0 = \<lparr>self = i_fields m, f_vars = Map.empty, saved_vars = Map.empty, pools = p\<rparr>"
  define fs0 where "fs0 = field st0"
  obtain out saved ob where loop: "field_loop cfg g (m_Fields msg) [] [] = (out, saved, ob)"
    by (cases "field_loop cfg g (m_Fields msg) [] []") auto
  define T where "T = QualifiedGoIdent g (m_GoIdent msg)"
  have body: "ResetVT_body cfg g msg =
      out @ (save_oneofs g T ob @ (ResetAll # (restore_saved saved @ restore_oneofs g ob)))"
    by (simp add: ResetVT_body_def loop T_def)
  from run obtain stE where ex: "exec_list cal (ResetVT_body cfg g msg) st0 = Inr stE"
    and m': "m' = Inst (i_type m) (self stE)"
    by (auto simp: run_body_def st0_def split: sum.splits)
  from ex body obtain st1 st2 st3 st4 where
    e1: "exec_list cal out st0 = Inr st1"
    and e2: "exec_list cal (save_oneofs g T ob) st1 = Inr st2"
    and e3: "exec cal ResetAll st2 = Inr st3"
    and e4: "exec_list cal (restore_saved saved) st3 = Inr st4"
    and e5: "exec_list cal (restore_oneofs g ob) st4 = Inr stE"
    by (auto dest!: exec_list_appendD split: sum.splits)
  have sh0: "same_shape fs0 st0" by (simp add: same_shape_def fs0_def)
  have ok0: "saved_ok fs0 [] st0" by (simp add: saved_ok_def)
  from field_loop_exec [OF loop e1 sh0 ok0] fld kw have mem: "fld \<in> set ob" by auto
  then have ne: "length ob > 0" by (cases ob) auto
  have slot0: "field st0 ?G = Some (VOneof (Some (Wrapper a (QualifiedGoIdent g (f_GoIdent fld)) (VBytes b))))"
    using slot by (simp add: st0_def field_def get_field_def)
  from exec_list_keeps_bytes_wrapper [OF e1 field_loop_stmts [OF loop] slot0]
  have slot1: "field st1 ?G = Some (VOneof (Some (Wrapper a (QualifiedGoIdent g (f_GoIdent fld)) (VBytes b))))"
    by simp
  have key: "?G \<in> set (group_keys ob)" using mem by (simp add: set_group_keys)
  have in1: "?G \<in> set (range_save g (group_keys ob))"
    using range_order_set [OF o1 distinct_group_keys] key by simp
  have in2: "?G \<in> set (range_restore g (group_keys ob))"
    using range_order_set [OF o2 distinct_group_keys] key by simp
  from e2 ne have e2': "exec_list cal (map (save_group g T ob) (range_save g (group_keys ob))) st1 = Inr st2"
    by (simp add: save_oneofs_def)
  from exec_save_groups [OF e2' mem slot1, of b] in1
  have sv2: "saved_vars st2 ?G = Some (Some ?w1)" and f2: "field st2 ?G = Some (VOneof (Some ?w1))"
    by simp_all
  from e3 have st3: "st3 = st2\<lparr>self := zero_fields (self st2)\<rparr>" by simp
  have sv3: "saved_vars st3 ?G = Some (Some ?w1)" using st3 sv2 by simp
  have f3: "field st3 ?G \<noteq> None"
    using f2 st3 by (simp add: field_def map_of_zero_fields)
  from exec_restores_dom [OF e4 [unfolded restore_saved_def] f3]
  have f4: "field st4 ?G \<noteq> None" .
  have sv4: "saved_vars st4 = saved_vars st3"
  proof -
    have "\<forall>ss st st'. list_all (\<lambda>s. \<exists>F n. s = Restore F n) ss \<longrightarrow> exec_list cal ss st = Inr st'
            \<longrightarrow> saved_vars st' = saved_vars st"
    proof (intro allI)
      fix ss st st'
      show "list_all (\<lambda>s. \<exists>F n. s = Restore F n) ss \<longrightarrow> exec_list cal ss st = Inr st'
            \<longrightarrow> saved_vars st' = saved_vars st"
        by (induction ss arbitrary: st) (auto split: sum.splits option.splits)
    qed
    moreover have "list_all (\<lambda>s. \<exists>F n. s = Restore F n) (restore_saved saved)"
      by (auto simp: restore_saved_def list_all_iff)
    ultimately show ?thesis using e4 by blast
  qed
  from e5 ne have e5': "exec_list cal (map OneofRestore (range_restore g (group_keys ob))) st4 = Inr stE"
    by (simp add: restore_oneofs_def)
  from exec_oneof_restores_slot [OF e5', of ?G "Some ?w1"] sv3 sv4 in2
  have "field stE ?G = Some (VOneof (Some ?w1))" by simp
  then show ?thesis by (simp add: m' get_field_def field_def)
qed

section \<open>Properties of the wire format\<close>

lemma unat_byte_of_nat: "n < 256 \<Longrightarrow> unat (of_nat n :: byte) = n"
  by (simp add: unat_of_nat)

lemma decode_encode_varint_at:
  "shift < 64 \<Longrightarrow> v < 2 ^ (64 - shift) \<Longrightarrow>
     decode_varint_at shift a (encode_varint v @ rest) = Inr ((a + v * 2 ^ shift) mod 2 ^ 64, rest)"
proof (induction v arbitrary: shift a rule: encode_varint.induct)
  case (1 v)
  show ?case
  proof (cases "v < 128")
    case True
    then have "encode_varint v = [of_nat v]" by (simp add: encode_varint.simps)
    with True "1.prems" show ?thesis
      by (simp add: unat_byte_of_nat Let_def)
  next
    case False
    then have enc: "encode_varint v = of_nat (v mod 128 + 128) # encode_varint (v div 128)"
      by (subst encode_varint.simps) simp
    have b: "unat (of_nat (v mod 128 + 128) :: byte) = v mod 128 + 128"
      using unat_byte_of_nat [of "v mod 128 + 128"] by simp
    from False "1.prems" have big: "(2::nat) ^ 7 \<le> v" "v < 2 ^ (64 - shift)" by simp_all
    have sh: "7 < 64 - shift"
    proof (rule ccontr)
      assume "\<not> 7 < 64 - shift"
      then have "64 - shift \<le> 7" by simp
      then have "(2::nat) ^ (64 - shift) \<le> 2 ^ 7" by (rule power_increasing) simp
      with big show False by simp
    qed
    then have s7: "shift + 7 < 64" by simp
    define k where "k = 64 - (shift + 7)"
    have e: "64 - shift = k + 7" using sh by (simp add: k_def)
    have "v < 2 ^ k * 128" using big(2) unfolding e by (simp add: power_add)
    then have "v div 128 < 2 ^ k" by (rule less_mult_imp_div_less)
    then have small: "v div 128 < 2 ^ (64 - (shift + 7))" by (simp add: k_def)
    have ih: "decode_varint_at (shift + 7) a' (encode_varint (v div 128) @ rest)
                = Inr ((a' + v div 128 * 2 ^ (shift + 7)) mod 2 ^ 64, rest)" for a'
      using "1.IH" [OF False s7 small] .
    have arith: "((a + v mod 128 * 2 ^ shift) mod 2 ^ 64 + v div 128 * 2 ^ (shift + 7)) mod 2 ^ 64
                   = (a + v * 2 ^ shift) mod (2 ^ 64 :: nat)"
    proof -
      have "a + v mod 128 * 2 ^ shift + v div 128 * 2 ^ (shift + 7) = a + v * 2 ^ shift"
      proof -
        have "v div 128 * 2 ^ (shift + 7) = (v div 128 * 128) * 2 ^ shift"
          by (simp add: power_add)
        then have "v mod 128 * 2 ^ shift + v div 128 * 2 ^ (shift + 7)
                = (v mod 128 + v div 128 * 128) * 2 ^ shift"
          by (simp only: add_mult_distrib)
        also have "v mod 128 + v div 128 * 128 = v" by simp
        finally show ?thesis by simp
      qed
      then show ?thesis by (metis mod_add_left_eq)
    qed
    from "1.prems" have ns: "\<not> 64 \<le> shift" by simp
    have nb: "\<not> (v mod 128 + 128 < 128)" by simp
    have m: "(v mod 128 + 128) mod 128 = v mod 128" by simp
    show ?thesis
      unfolding enc append_Cons decode_varint_at.simps b Let_def m
      using ns nb ih arith by simp
  qed
qed

lemma decode_encode_varint:
  "v < 2 ^ 64 \<Longrightarrow> decode_varint (encode_varint v @ rest) = Inr (v, rest)"
  using decode_encode_varint_at [of 0 v 0 rest] by (simp add: decode_varint_def)

lemma encode_varint_nonempty: "encode_varint v \<noteq> []"
  by (subst encode_varint.simps) simp

lemma length_le_bytes [simp]: "length (le_bytes k v) = k"
  by (induction k arbitrary: v) auto

lemma le_value_le_bytes: "le_value (le_bytes k v) = v mod 256 ^ k"
proof (induction k arbitrary: v)
  case 0
  show ?case by simp
next
  case (Suc k)
  have "unat (of_nat (v mod 256) :: byte) = v mod 256" by (simp add: unat_byte_of_nat)
  then show ?case
    by (simp add: Suc.IH mod_mult2_eq)
qed

lemma string_of_bytes_of_string: "string_of_bytes (bytes_of_string s) = s"
proof -
  have "char_of (unat (of_nat (of_char c) :: byte)) = c" for c :: char
  proof -
    have "of_char c < (256::nat)" by (simp add: of_char_def)
    then show ?thesis by (simp add: unat_byte_of_nat)
  qed
  then show ?thesis by (simp add: string_of_bytes_def bytes_of_string_def comp_def)
qed

lemma utf8_valid_ascii: "\<forall>b \<in> set bs. b < 128 \<Longrightarrow> utf8_valid bs"
  by (induction bs) auto

lemma ValidateUTF8_ascii:
  assumes "\<forall>c \<in> set s. of_char c < (128::nat)"
  shows "ValidateUTF8 (bytes_of_string s)"
proof -
  have "unat (of_nat (of_char c) :: byte) = of_char c" if "c \<in> set s" for c
    using assms that by (intro unat_byte_of_nat) force
  then have "\<forall>b \<in> set (map unat (bytes_of_string s)). b < 128"
    using assms by (auto simp: bytes_of_string_def)
  then show ?thesis unfolding ValidateUTF8_def by (rule utf8_valid_ascii)
qed

lemma UnmarshalVT_sem_Nil: "UnmarshalVT_sem plan [] m = (None, m)"
  by (simp add: UnmarshalVT_sem.simps)

lemma UnmarshalVT_sem_step:
  "bs \<noteq> [] \<Longrightarrow> decode_one plan bs m = Inr (rest, m') \<Longrightarrow>
     UnmarshalVT_sem plan bs m = UnmarshalVT_sem plan rest m'"
  by (subst UnmarshalVT_sem.simps) simp

lemma UnmarshalVT_sem_fail:
  "bs \<noteq> [] \<Longrightarrow> decode_one plan bs m = Inl e \<Longrightarrow> UnmarshalVT_sem plan bs m = (Some e, m)"
  by (subst UnmarshalVT_sem.simps) simp

lemma decode_varint_single: "unat b < 128 \<Longrightarrow> decode_varint (b # rest) = Inr (unat b, rest)"
  by (simp add: decode_varint_def Let_def)

lemma MarshalVT_sem_concat:
  "MarshalVT_sem plan m = concat (map (\<lambda>fp. encode_field fp m) plan)"
proof -
  have "foldl (\<lambda>written fp. encode_field fp m @ written) acc (rev plan)
          = concat (map (\<lambda>fp. encode_field fp m) plan) @ acc" for acc
    by (induction plan arbitrary: acc) auto
  then show ?thesis by (simp add: MarshalVT_sem_def)
qed

lemma encode_field_update_other:
  "fp_name fp \<noteq> F \<Longrightarrow> encode_field fp (AList.update F v m) = encode_field fp m"
  by (simp add: encode_field_def update_conv')

lemma wire_type_less_8: "wire_type kind < 8"
  by (cases kind) auto

lemma tag_bytes_nonempty: "tag_bytes fp \<noteq> []"
  by (simp add: tag_bytes_def encode_varint_nonempty)

subsection \<open>Decoding what was encoded\<close>

lemma find_distinct:
  "fp \<in> set plan \<Longrightarrow> distinct (map fp_number plan) \<Longrightarrow>
     find (\<lambda>q. fp_number q = fp_number fp) plan = Some fp"
  by (induction plan) (auto simp: image_iff)

lemma length_bytes_of_string [simp]: "length (bytes_of_string s) = length s"
  by (simp add: bytes_of_string_def)

lemma decode_payload:
  assumes "valid_payload fp x"
  shows "decode_value fp (payload_bytes (fp_kind fp) x @ rest) = Inr (as_decoded x, rest)"
proof (cases x)
  case (VScalar u)
  with assms have sc: "is_scalar (fp_kind fp)" and f: "fits (fp_kind fp) u" by simp_all
  from sc consider "wire_type (fp_kind fp) = 0" | "wire_type (fp_kind fp) = 1"
    | "wire_type (fp_kind fp) = 5"
    by (auto simp: is_scalar_def)
  then show ?thesis
  proof cases
    case 1
    with f have "u < 2 ^ 64" by (simp add: fits_def)
    from decode_encode_varint [OF this, of rest] 1 VScalar show ?thesis
      by (simp add: decode_value_def)
  next
    case 2
    with f have "u < 2 ^ 64" by (simp add: fits_def)
    then have "u mod 256 ^ 8 = u" by simp
    with 2 VScalar show ?thesis
      by (simp add: decode_value_def split_at_def le_value_le_bytes)
  next
    case 3
    with f have "u < 2 ^ 32" by (simp add: fits_def)
    then have "u mod 256 ^ 4 = u" by simp
    with 3 VScalar show ?thesis
      by (simp add: decode_value_def split_at_def le_value_le_bytes)
  qed
next
  case (VString s)
  with assms have k: "fp_kind fp = StringKind" and l: "length s < 2 ^ 63"
    and u: "fp_strict fp \<longrightarrow> ValidateUTF8 (bytes_of_string s)" by simp_all
  from l have "length s < 2 ^ 64" by simp
  from decode_encode_varint [OF this]
  have d: "decode_varint (encode_varint (length s) @ r) = Inr (length s, r)" for r .
  have "decode_length_delimited (encode_varint (length s) @ bytes_of_string s @ rest)
          = Inr (bytes_of_string s, rest)"
    unfolding decode_length_delimited_def d using l by (simp add: split_at_def)
  with k u VString show ?thesis
    by (simp add: decode_value_def string_of_bytes_of_string)
next
  case (VBytes s)
  with assms have k: "fp_kind fp = BytesKind" and l: "len s < 2 ^ 63"
    and c: "case s of NilSlice \<Rightarrow> True | Slice b n \<Rightarrow> n \<le> length b" by simp_all
  from c have ls: "length (slice_bytes s) = len s" by (cases s) auto
  from l have "len s < 2 ^ 64" by simp
  from decode_encode_varint [OF this]
  have d: "decode_varint (encode_varint (len s) @ r) = Inr (len s, r)" for r .
  have "decode_length_delimited (encode_varint (len s) @ slice_bytes s @ rest)
          = Inr (slice_bytes s, rest)"
    unfolding decode_length_delimited_def d using l ls by (simp add: split_at_def)
  with k VBytes ls show ?thesis
    by (simp add: decode_value_def)
qed (use assms in auto)

lemma valid_payload_wire: "valid_payload fp x \<Longrightarrow> wire_type (fp_kind fp) \<noteq> 3"
  by (cases x) (auto simp: is_scalar_def)

lemma decode_one_field:
  assumes mem: "fp \<in> set plan" and d: "distinct (map fp_number plan)"
    and n: "fp_number fp < 2 ^ 29" and v: "valid_payload fp x"
  shows "decode_one plan (tag_bytes fp @ payload_bytes (fp_kind fp) x @ rest) st
           = Inr (rest, assign fp (as_decoded x) st)"
proof -
  let ?w = "fp_number fp * 8 + wire_type (fp_kind fp)"
  have "?w < 2 ^ 29 * 8 + 8" using n wire_type_less_8 [of "fp_kind fp"] by simp
  then have "?w < 2 ^ 64" by simp
  from decode_encode_varint [OF this]
  have tag: "decode_varint (tag_bytes fp @ r) = Inr (?w, r)" for r
    by (simp add: tag_bytes_def)
  have dm: "?w div 8 = fp_number fp" "?w mod 8 = wire_type (fp_kind fp)"
    using wire_type_less_8 [of "fp_kind fp"] by simp_all
  have n3: "wire_type (fp_kind fp) \<noteq> 3" using v by (rule valid_payload_wire)
  define pl where "pl = payload_bytes (fp_kind fp) x"
  have dv: "decode_value fp (pl @ rest) = Inr (as_decoded x, rest)"
    unfolding pl_def by (rule decode_payload [OF v])
  have f: "find (\<lambda>q. fp_number q = fp_number fp) plan = Some fp"
    by (rule find_distinct [OF mem d])
  have "decode_one plan (tag_bytes fp @ pl @ rest) st = Inr (rest, assign fp (as_decoded x) st)"
    unfolding decode_one_def tag sum.case prod.case dm f option.case
    using n3 dv by simp
  then show ?thesis by (simp add: pl_def)
qed

lemma emitted_valid:
  "valid_value fp v \<Longrightarrow> emitted (fp_presence fp) v = Some x \<Longrightarrow> valid_payload fp x"
  by (cases "(fp_presence fp, v)" rule: emitted.cases)
     (auto simp: valid_value_def split: if_splits option.splits)

lemma UnmarshalVT_sem_encoded:
  assumes vp: "valid_plan plan"
  shows "set fps \<subseteq> set plan \<Longrightarrow> valid_instance fps m \<Longrightarrow>
     UnmarshalVT_sem plan (concat (map (\<lambda>fp. encode_field fp m) fps)) st
       = (None, foldl (store m) st fps)"
proof (induction fps arbitrary: st)
  case Nil
  show ?case by (simp add: UnmarshalVT_sem_Nil)
next
  case (Cons fp fps)
  from Cons.prems have mem: "fp \<in> set plan" and sub: "set fps \<subseteq> set plan"
    and vi: "valid_instance fps m" by (simp_all add: valid_instance_def)
  from Cons.prems(2) obtain v where v: "map_of m (fp_name fp) = Some v" and vv: "valid_value fp v"
    by (auto simp: valid_instance_def split: option.splits)
  from vp mem have d: "distinct (map fp_number plan)" and n: "fp_number fp < 2 ^ 29"
    by (auto simp: valid_plan_def list_all_iff)
  let ?rest = "concat (map (\<lambda>fp. encode_field fp m) fps)"
  show ?case
  proof (cases "emitted (fp_presence fp) v")
    case None
    with v have "encode_field fp m = []" "store m st fp = st"
      by (simp_all add: encode_field_def store_def)
    with Cons.IH [OF sub vi] show ?thesis by simp
  next
    case (Some x)
    from emitted_valid [OF vv Some] have vx: "valid_payload fp x" .
    from v Some have enc: "encode_field fp m = tag_bytes fp @ payload_bytes (fp_kind fp) x"
      and sto: "store m st fp = assign fp (as_decoded x) st"
      by (simp_all add: encode_field_def store_def)
    have ne: "tag_bytes fp @ payload_bytes (fp_kind fp) x @ ?rest \<noteq> []"
      by (simp add: tag_bytes_nonempty)
    from UnmarshalVT_sem_step [OF ne decode_one_field [OF mem d n vx]]
    have "UnmarshalVT_sem plan (tag_bytes fp @ payload_bytes (fp_kind fp) x @ ?rest) st
            = UnmarshalVT_sem plan ?rest (assign fp (as_decoded x) st)" .
    with Cons.IH [OF sub vi] enc sto show ?thesis by simp
  qed
qed

lemma store_other:
  "n \<notin> fp_name ` set fps \<Longrightarrow> map_of (foldl (store m) st fps) n = map_of st n"
proof (induction fps arbitrary: st)
  case Nil
  show ?case by simp
next
  case (Cons a fps)
  then have "map_of (foldl (store m) (store m st a) fps) n = map_of (store m st a) n" by simp
  also have "\<dots> = map_of st n"
    using Cons.prems by (auto simp: store_def assign_def update_conv' split: option.splits)
  finally show ?case by simp
qed

lemma store_at:
  "fp \<in> set fps \<Longrightarrow> distinct (map fp_name fps) \<Longrightarrow>
     map_of (foldl (store m) st fps) (fp_name fp) = map_of (store m st fp) (fp_name fp)"
proof (induction fps arbitrary: st)
  case Nil
  then show ?case by simp
next
  case (Cons a fps)
  show ?case
  proof (cases "fp = a")
    case True
    with Cons.prems have "fp_name fp \<notin> fp_name ` set fps" by auto
    from store_other [OF this] True show ?thesis by simp
  next
    case False
    with Cons.prems have mem: "fp \<in> set fps" and dis: "distinct (map fp_name fps)"
      and ne: "fp_name a \<noteq> fp_name fp" by auto
    from Cons.IH [OF mem dis]
    have "map_of (foldl (store m) (store m st a) fps) (fp_name fp)
            = map_of (store m (store m st a) fp) (fp_name fp)" .
    also have "\<dots> = map_of (store m st fp) (fp_name fp)"
      using ne by (auto simp: store_def assign_def update_conv' split: option.splits)
    finally show ?thesis by simp
  qed
qed

lemma map_of_fresh:
  "fp \<in> set plan \<Longrightarrow> distinct (map fp_name plan) \<Longrightarrow>
     map_of (fresh plan) (fp_name fp) = Some (zero_of fp)"
  by (induction plan) (auto simp: fresh_def image_iff)


lemma emitted_zero_of: "fp_presence fp = Implicit \<Longrightarrow> emitted Implicit (zero_of fp) = None"
  by (simp add: zero_of_def)

lemma le_bytes_numeral:
  "le_bytes (numeral k) v = of_nat (v mod 256) # le_bytes (pred_numeral k) (v div 256)"
  by (metis numeral_eq_Suc le_bytes.simps(2))

lemma presence_plan_valid: "valid_plan (presence_plan pr)"
  by (simp add: valid_plan_def presence_plan_def)

lemma all_zero_valid: "valid_instance (presence_plan Implicit) all_zero"
  by (simp add: valid_instance_def presence_plan_def all_zero_def valid_value_def is_scalar_def
        fits_def ValidateUTF8_def bytes_of_string_def)

lemma zero_units_valid: "valid_instance (presence_plan Explicit) zero_units"
  by (simp add: valid_instance_def presence_plan_def zero_units_def valid_value_def is_scalar_def
        fits_def ValidateUTF8_def bytes_of_string_def)

lemma all_zero_bytes: "MarshalVT_sem (presence_plan Implicit) all_zero = []"
  by (simp add: MarshalVT_sem_def presence_plan_def all_zero_def encode_field_def)

lemma zero_units_bytes:
  "MarshalVT_sem (presence_plan Explicit) zero_units
     = [10, 3, 69, 85, 82, 16, 0, 49, 0, 0, 0, 0, 0, 0, 0, 0]"
  by (simp add: MarshalVT_sem_def presence_plan_def zero_units_def encode_field_def tag_bytes_def
        encode_varint.simps bytes_of_string_def le_bytes_numeral)

subsection \<open>The example message, generated\<close>

lemma Blob_decls_eq:
  "Blob_decls =
     [PoolVar ''Blob'' ''sync.Pool'',
      FuncResetVT ''Blob'' [SaveTrunc 0 ''Data'', ResetAll, Restore ''Data'' 0],
      FuncReturnToVTPool ''Blob'', FuncFromVTPool ''Blob'']"
  by (simp add: Blob_decls_def Blob_msg_def ident_def no_lists_def gen_with_def Let_def
        ShouldPool_def message_ref_def IsOpaque_def ResetVT_body_def field_step_def
        in_real_oneof_def save_oneofs_def restore_saved_def restore_oneofs_def)

subsection \<open>The example, evaluated\<close>

lemma Sample_body:
  "ResetVT_body no_lists (gen_with id) Sample_msg =
     [SaveTrunc 0 ''Values'', RangeReset ''Items'' True, SaveTrunc 1 ''Items'',
      SaveTrunc 2 ''Data'', OneofSave ''Body'' ''Sample'' [(''Sample_Raw'', ''Raw'')], ResetAll,
      Restore ''Values'' 0, Restore ''Items'' 1, Restore ''Data'' 2, OneofRestore ''Body'']"
  by (simp add: Let_def ResetVT_body_def Sample_msg_def Items_field_def Item_msg_def scalar_field_def
        oneof_bytes_field_def ident_def no_lists_def gen_with_def field_step_def ShouldPool_def
        message_ref_def in_real_oneof_def Oneof_GoName_def save_oneofs_def save_group_def
        restore_saved_def restore_oneofs_def group_keys_def oneofGroups_def add_to_group_def)

lemma Sample_decls_eq:
  "Sample_decls =
     [PoolVar ''Item'' ''sync.Pool'', FuncResetVT ''Item'' [ResetAll],
      FuncReturnToVTPool ''Item'', FuncFromVTPool ''Item'',
      PoolVar ''Sample'' ''sync.Pool'',
      FuncResetVT ''Sample'' (ResetVT_body no_lists (gen_with id) Sample_msg),
      FuncReturnToVTPool ''Sample'', FuncFromVTPool ''Sample'']"
  by (simp add: Let_def Sample_decls_def Sample_msg_def Item_msg_def ident_def no_lists_def gen_with_def
        ShouldPool_def message_ref_def IsOpaque_def ResetVT_body_def scalar_field_def
        field_step_def in_real_oneof_def save_oneofs_def restore_saved_def restore_oneofs_def)

lemma Sample_run_body:
  "run_body (ResetVT_fuel Sample_decls 1) (ResetVT_body no_lists (gen_with id) Sample_msg)
     a_Sample no_pools = Inr (a_Sample_reset, no_pools)"
  unfolding Sample_body One_nat_def
  by (simp add: Let_def run_body_def a_Sample_def a_Sample_reset_def an_Item_def field_def set_field_def
        reset_elem_def Sample_decls_eq zero_fields_def)

lemma range_order_id: "is_range_order id"
  by (simp add: is_range_order_def)

lemma range_order_rev: "is_range_order rev"
  by (simp add: is_range_order_def)

lemma lookup_ResetVT_append:
  "lookup_ResetVT (xs @ ys) T =
     (case lookup_ResetVT xs T of Some b \<Rightarrow> Some b | None \<Rightarrow> lookup_ResetVT ys T)"
  by (induction xs T rule: lookup_ResetVT.induct) auto

lemma message_own_decls:
  assumes "generates_pool cfg msg"
  shows "\<exists>pre. message cfg g msg =
           pre @ [PoolVar (QualifiedGoIdent g (m_GoIdent msg)) ''sync.Pool'',
                  FuncResetVT (QualifiedGoIdent g (m_GoIdent msg)) (ResetVT_body cfg g msg),
                  FuncReturnToVTPool (QualifiedGoIdent g (m_GoIdent msg)),
                  FuncFromVTPool (QualifiedGoIdent g (m_GoIdent msg))]"
  using assms by (cases msg) (auto simp: generates_pool_def Let_def)

section \<open>The generated reset returns\<close>

subsection \<open>The relation between a value and a later one\<close>

lemma list_ok_iff:
  "list_ok Q v \<longleftrightarrow> (\<exists>x. v = Some x \<and> tag_of x = TList \<and> in_bounds x \<and> list_all Q (elems x))"
proof (cases v)
  case None
  then show ?thesis by simp
next
  case (Some x)
  show ?thesis
  proof (cases x)
    case (VList s)
    with Some show ?thesis by (cases s) auto
  qed (use Some in auto)
qed

lemma slot_ok_iff:
  "slot_ok Q v \<longleftrightarrow>
     (\<exists>x. v = Some x \<and> tag_of x = TOneof \<and> (\<forall>t u. payload x = Some (t, u) \<longrightarrow> Q t u))"
proof (cases v)
  case None
  then show ?thesis by simp
next
  case (Some x)
  show ?thesis
  proof (cases x)
    case (VOneof w)
    show ?thesis
    proof (cases w)
      case None
      with Some VOneof show ?thesis by simp
    next
      case (Some wr)
      with \<open>v = Some x\<close> VOneof show ?thesis by (cases wr) auto
    qed
  qed (use Some in auto)
qed

lemma handle_cap_iff:
  "handle_cap v \<noteq> None \<longleftrightarrow> (\<exists>x. v = Some x \<and> (tag_of x = TList \<or> tag_of x = TBytes))"
  by (cases v rule: handle_cap.cases) auto

lemma okeeps_Some: "okeeps P (Some x) v \<longleftrightarrow> (\<exists>y. v = Some y \<and> keeps P x y)"
  by (cases v) auto

lemma okeeps_SomeR: "okeeps P v (Some y) \<longleftrightarrow> (\<exists>x. v = Some x \<and> keeps P x y)"
  by (cases v) auto

lemma keeps_fieldsD:
  "keeps_fields P fs fs' \<Longrightarrow> fs F = Some x \<Longrightarrow> \<exists>y. fs' F = Some y \<and> keeps P x y"
  by (metis okeeps_Some keeps_fields_def)

lemma ekeeps_refl [simp]: "ekeeps P e e"
  by (simp add: ekeeps_def)

lemma ekeeps_trans: "ekeeps P a b \<Longrightarrow> ekeeps P b c \<Longrightarrow> ekeeps P a c"
  by (auto simp: ekeeps_def)

lemma keeps_refl [simp]: "keeps P x x"
proof -
  have "list_all2 (ekeeps P) xs xs" for xs by (simp add: list_all2_refl)
  moreover have "payload x = None \<or> (\<exists>t u. payload x = Some (t, u))" by (cases "payload x") auto
  ultimately show ?thesis by (auto simp: keeps_def)
qed

lemma okeeps_refl [simp]: "okeeps P v v"
  by (cases v) auto

lemma keeps_fields_refl [simp]: "keeps_fields P fs fs"
  by (simp add: keeps_fields_def)

lemma keeps_trans:
  assumes "keeps P x y" and "keeps P y z"
  shows "keeps P x z"
proof -
  have el: "elems z = [] \<or> list_all2 (ekeeps P) (elems x) (elems z)"
  proof (cases "elems z = []")
    case False
    with assms(2) have yz: "list_all2 (ekeeps P) (elems y) (elems z)" by (simp add: keeps_def)
    with False have "elems y \<noteq> []" by auto
    with assms(1) have xy: "list_all2 (ekeeps P) (elems x) (elems y)" by (simp add: keeps_def)
    from list_all2_trans [OF _ xy yz] ekeeps_trans show ?thesis by blast
  qed simp
  have pl: "payload z = None
        \<or> (\<exists>t u u'. payload x = Some (t, u) \<and> payload z = Some (t, u')
              \<and> tag_of u' = tag_of u \<and> (msg_ok P u \<longrightarrow> msg_ok P u'))"
  proof (cases "payload z")
    case (Some tz)
    with assms(2) obtain t u u' where
      a: "payload y = Some (t, u)" "payload z = Some (t, u')" "tag_of u' = tag_of u"
      "msg_ok P u \<longrightarrow> msg_ok P u'"
      by (auto simp: keeps_def)
    with assms(1) obtain u0 where
      b: "payload x = Some (t, u0)" "tag_of u = tag_of u0" "msg_ok P u0 \<longrightarrow> msg_ok P u"
      by (auto simp: keeps_def)
    from a b show ?thesis by auto
  qed simp
  from assms el pl show ?thesis by (simp add: keeps_def)
qed

lemma okeeps_trans: "okeeps P a b \<Longrightarrow> okeeps P b c \<Longrightarrow> okeeps P a c"
  by (cases a; cases b; cases c) (auto intro: keeps_trans)

lemma keeps_fields_trans:
  "keeps_fields P a b \<Longrightarrow> keeps_fields P b c \<Longrightarrow> keeps_fields P a c"
  unfolding keeps_fields_def using okeeps_trans by blast

lemma elem_ok_pres: "ekeeps P e e' \<Longrightarrow> elem_ok P pooled e \<Longrightarrow> elem_ok P pooled e'"
  by (auto simp: ekeeps_def elem_ok_def)

lemma kind_ok_pres:
  "tag_of y = tag_of x \<Longrightarrow> (msg_ok P x \<longrightarrow> msg_ok P y) \<Longrightarrow> kind_ok P pooled kind x \<Longrightarrow>
     kind_ok P pooled kind y"
  by (auto simp: kind_ok_def split: if_splits)

lemma list_all2_pres:
  "list_all2 R xs ys \<Longrightarrow> (\<And>x y. R x y \<Longrightarrow> Q x \<Longrightarrow> Q y) \<Longrightarrow> list_all Q xs \<Longrightarrow> list_all Q ys"
  by (induction rule: list_all2_induct) auto

lemma list_ok_keeps:
  assumes l: "list_ok Q (fs F)" and k: "keeps_fields P fs fs'"
    and q: "\<And>e e'. ekeeps P e e' \<Longrightarrow> Q e \<Longrightarrow> Q e'"
  shows "list_ok Q (fs' F)"
proof -
  from l obtain x where x: "fs F = Some x" "tag_of x = TList" "in_bounds x" "list_all Q (elems x)"
    by (auto simp: list_ok_iff)
  from k x(1) obtain y where y: "fs' F = Some y" "keeps P x y"
    using keeps_fieldsD by blast
  have "list_all Q (elems y)"
  proof (cases "elems y = []")
    case False
    with y(2) have a: "list_all2 (ekeeps P) (elems x) (elems y)" by (simp add: keeps_def)
    show ?thesis by (rule list_all2_pres [OF a _ x(4)]) (rule q)
  qed simp
  with x y show ?thesis by (auto simp: list_ok_iff keeps_def)
qed

lemma slot_ok_keeps:
  assumes l: "slot_ok Q (fs G)" and k: "keeps_fields P fs fs'"
    and q: "\<And>t u u'. tag_of u' = tag_of u \<Longrightarrow> (msg_ok P u \<longrightarrow> msg_ok P u') \<Longrightarrow> Q t u \<Longrightarrow> Q t u'"
  shows "slot_ok Q (fs' G)"
proof -
  from l obtain x where x: "fs G = Some x" "tag_of x = TOneof"
    "\<forall>t u. payload x = Some (t, u) \<longrightarrow> Q t u"
    by (auto simp: slot_ok_iff)
  from k x(1) obtain y where y: "fs' G = Some y" "keeps P x y"
    using keeps_fieldsD by blast
  have "Q t u'" if "payload y = Some (t, u')" for t u'
  proof -
    from y(2) that obtain u where "payload x = Some (t, u)" "tag_of u' = tag_of u"
      "msg_ok P u \<longrightarrow> msg_ok P u'"
      by (auto simp: keeps_def)
    with x(3) q show ?thesis by blast
  qed
  with x y show ?thesis by (auto simp: slot_ok_iff keeps_def)
qed

lemma ready_keeps:
  assumes k: "keeps_fields P fs fs'" and r: "ready P s fs"
  shows "ready P s fs'"
proof (cases s)
  case (RangeReset F pooled)
  with r list_ok_keeps [OF _ k, of "elem_ok P pooled" F] elem_ok_pres show ?thesis by auto
next
  case (Clear F)
  with r list_ok_keeps [OF _ k, of "\<lambda>e. tag_of e \<noteq> TMessage" F] show ?thesis
    by (auto simp: ekeeps_def)
next
  case (SaveTrunc n F)
  with r have "handle_cap (fs F) \<noteq> None" by simp
  then obtain x where x: "fs F = Some x" "tag_of x = TList \<or> tag_of x = TBytes"
    using handle_cap_iff by blast
  from k x(1) obtain y where "fs' F = Some y" "keeps P x y"
    using keeps_fieldsD by blast
  then have "handle_cap (fs' F) \<noteq> None"
    using x handle_cap_iff [of "fs' F"] by (auto simp: keeps_def)
  with SaveTrunc show ?thesis by simp
next
  case (OneofReturn G W F)
  with r slot_ok_keeps [OF _ k, of "\<lambda>t v. t = W \<longrightarrow> msg_ok P v" G] show ?thesis by auto
next
  case (FieldReturn F)
  with r obtain x where x: "fs F = Some x" "msg_ok P x" by (auto split: option.splits)
  from k x(1) obtain y where "fs' F = Some y" "keeps P x y"
    using keeps_fieldsD by blast
  with x FieldReturn show ?thesis by (auto simp: keeps_def)
next
  case (OneofSave G T cs)
  with r slot_ok_keeps [OF _ k, of "\<lambda>t v. t \<in> fst ` set cs \<longrightarrow> tag_of v = TBytes" G]
  show ?thesis by auto
qed simp_all

lemma holds_keeps:
  assumes h: "holds P cfg g fld fs" and k: "keeps_fields P fs fs'"
  shows "holds P cfg g fld fs'"
proof -
  let ?pooled = "ShouldPool cfg (f_Message fld)"
  let ?kind = "f_Kind fld"
  show ?thesis
  proof (cases "f_IsList fld")
    case True
    let ?Q = "if ?kind = MessageKind \<or> ?kind = GroupKind then elem_ok P ?pooled
              else kind_ok P ?pooled ?kind"
    from h True have "list_ok ?Q (fs (f_GoName fld))" by (simp add: holds_def Let_def)
    moreover have "?Q e'" if "ekeeps P e e'" "?Q e" for e e'
      using that elem_ok_pres [of P e e' ?pooled] kind_ok_pres [of e' e P ?pooled ?kind]
      by (auto simp: ekeeps_def split: if_splits)
    ultimately have "list_ok ?Q (fs' (f_GoName fld))" by (rule list_ok_keeps [OF _ k])
    with True show ?thesis by (simp add: holds_def Let_def)
  next
    case False
    show ?thesis
    proof (cases "in_real_oneof fld")
      case True
      let ?Q = "\<lambda>t v. t = QualifiedGoIdent g (f_GoIdent fld) \<longrightarrow> kind_ok P ?pooled ?kind v"
      from h True False have "slot_ok ?Q (fs (Oneof_GoName fld))" by (simp add: holds_def Let_def)
      moreover have "?Q t u'" if "tag_of u' = tag_of u" "msg_ok P u \<longrightarrow> msg_ok P u'" "?Q t u" for t u u'
        using that kind_ok_pres [of u' u P ?pooled ?kind] by auto
      ultimately have "slot_ok ?Q (fs' (Oneof_GoName fld))" by (rule slot_ok_keeps [OF _ k])
      with True False show ?thesis by (simp add: holds_def Let_def)
    next
      case noo: False
      from h False noo obtain x where x: "fs (f_GoName fld) = Some x"
        and hx: "if f_IsMap fld \<and> (?kind = MessageKind \<or> ?kind = GroupKind) then tag_of x = TMap
                 else kind_ok P ?pooled ?kind x"
        by (auto simp: holds_def Let_def split: option.splits)
      from k x obtain y where y: "fs' (f_GoName fld) = Some y" "keeps P x y"
        using keeps_fieldsD by blast
      from y(2) have t: "tag_of y = tag_of x" and m: "msg_ok P x \<longrightarrow> msg_ok P y"
        by (simp_all add: keeps_def)
      from hx t kind_ok_pres [OF t m] have
        "if f_IsMap fld \<and> (?kind = MessageKind \<or> ?kind = GroupKind) then tag_of y = TMap
         else kind_ok P ?pooled ?kind y"
        by (auto split: if_splits)
      with False noo y(1) show ?thesis by (simp add: holds_def Let_def)
    qed
  qed
qed

lemma instance_of_keeps:
  "instance_of P cfg g msg m \<Longrightarrow> keeps_fields P (get_field m) (get_field m') \<Longrightarrow>
     instance_of P cfg g msg m'"
  unfolding instance_of_def list_all_iff using holds_keeps by blast

subsection \<open>Every statement before \<open>m.Reset()\<close> runs and keeps the fields related\<close>

lemma reset_elem_step:
  assumes rw: "resets_within P cal" and ex: "reset_elem pooled cal e p = Inr (e', p')"
  shows "ekeeps P e e'"
proof (cases e)
  case (VMessage mm)
  show ?thesis
  proof (cases mm)
    case None
    with ex VMessage show ?thesis by (simp add: reset_elem_def split: if_splits)
  next
    case (Some i)
    show ?thesis
    proof (cases pooled)
      case True
      with ex VMessage Some obtain i' where c: "cal i p = Inr (i', p')" and e': "e' = VMessage (Some i')"
        by (auto simp: reset_elem_def split: sum.splits prod.splits)
      have "P i'" if "P i"
      proof -
        from rw that obtain j q where "cal i p = Inr (j, q)" "P j"
          unfolding resets_within_def by blast
        with c show ?thesis by simp
      qed
      with VMessage Some e' show ?thesis by (simp add: ekeeps_def)
    next
      case False
      with ex VMessage Some have e': "e' = VMessage (Some (Reset_sem i))"
        by (simp add: reset_elem_def)
      from rw have "P i \<Longrightarrow> P (Reset_sem i)" unfolding resets_within_def by blast
      with VMessage Some e' show ?thesis by (auto simp: ekeeps_def)
    qed
  qed
qed (use ex in \<open>auto simp: reset_elem_def\<close>)

lemma reset_elems_step:
  assumes rw: "resets_within P cal"
  shows "reset_elems pooled cal xs p = Inr (es, p') \<Longrightarrow> list_all2 (ekeeps P) xs es"
proof (induction xs arbitrary: es p)
  case Nil
  then show ?case by simp
next
  case (Cons e xs)
  from Cons.prems obtain e' p1 es' where
    a: "reset_elem pooled cal e p = Inr (e', p1)"
    and b: "reset_elems pooled cal xs p1 = Inr (es', p')" and es: "es = e' # es'"
    by (auto split: sum.splits prod.splits)
  from reset_elem_step [OF rw a] Cons.IH [OF b] es show ?case by simp
qed

lemma reset_elem_progress:
  assumes rw: "resets_within P cal" and ok: "elem_ok P pooled e"
  shows "\<exists>e' p'. reset_elem pooled cal e p = Inr (e', p')"
proof (cases e)
  case (VMessage mm)
  show ?thesis
  proof (cases mm)
    case None
    with ok VMessage show ?thesis by (auto simp: reset_elem_def elem_ok_def split: if_splits)
  next
    case (Some i)
    show ?thesis
    proof (cases pooled)
      case True
      with ok VMessage Some have "P i" by (simp add: elem_ok_def)
      with rw obtain j q where "cal i p = Inr (j, q)" unfolding resets_within_def by blast
      with VMessage Some True show ?thesis by (simp add: reset_elem_def)
    next
      case False
      with VMessage Some show ?thesis by (simp add: reset_elem_def)
    qed
  qed
qed (use ok in \<open>auto simp: elem_ok_def split: if_splits\<close>)

lemma reset_elems_progress:
  assumes rw: "resets_within P cal"
  shows "list_all (elem_ok P pooled) xs \<Longrightarrow> \<exists>es p'. reset_elems pooled cal xs p = Inr (es, p')"
proof (induction xs arbitrary: p)
  case Nil
  show ?case by simp
next
  case (Cons e xs)
  from Cons.prems have e: "elem_ok P pooled e" and xs: "list_all (elem_ok P pooled) xs"
    by simp_all
  from reset_elem_progress [OF rw e] obtain e' p1 where
    a: "reset_elem pooled cal e p = Inr (e', p1)" by blast
  from Cons.IH [OF xs] obtain es p2 where
    b: "reset_elems pooled cal xs p1 = Inr (es, p2)" by blast
  from a b show ?case by simp
qed

lemma ReturnToVTPool_progress:
  assumes rw: "resets_within P cal" and ok: "msg_ok P (VMessage mm)"
  shows "\<exists>mm' p'. ReturnToVTPool_sem T cal mm p = Inr (mm', p')"
proof (cases mm)
  case None
  then show ?thesis by (simp add: ReturnToVTPool_sem_def)
next
  case (Some i)
  with ok have "P i" by simp
  with rw obtain j q where "cal i p = Inr (j, q)" unfolding resets_within_def by blast
  with Some show ?thesis by (simp add: ReturnToVTPool_sem_def)
qed

lemma ReturnToVTPool_step:
  assumes rw: "resets_within P cal" and ex: "ReturnToVTPool_sem T cal mm p = Inr (mm', p')"
  shows "msg_ok P (VMessage mm) \<longrightarrow> msg_ok P (VMessage mm')"
proof (cases mm)
  case None
  with ex show ?thesis by (simp add: ReturnToVTPool_sem_def)
next
  case (Some i)
  with ex obtain i' q where c: "cal i p = Inr (i', q)" and m: "mm' = Some i'"
    by (auto simp: ReturnToVTPool_sem_def split: sum.splits prod.splits)
  have "P i'" if "P i"
  proof -
    from rw that obtain j q' where "cal i p = Inr (j, q')" "P j"
      unfolding resets_within_def by blast
    with c show ?thesis by simp
  qed
  with Some m show ?thesis by simp
qed

lemma take_reset:
  "length es = length (take n b) \<Longrightarrow> take n (es @ drop n b) = es"
  by (cases "n \<le> length b") auto

lemma slot_okD:
  assumes "slot_ok Q v"
  shows "v = Some (VOneof None) \<or> (\<exists>a t u. v = Some (VOneof (Some (Wrapper a t u))) \<and> Q t u)"
  using assms by (cases "(Q, v)" rule: slot_ok.cases) auto

lemma list_okD:
  assumes "list_ok Q v"
  shows "v = Some (VList NilSlice)
       \<or> (\<exists>b n. v = Some (VList (Slice b n)) \<and> n \<le> length b \<and> list_all Q (take n b))"
  using assms by (cases "(Q, v)" rule: list_ok.cases) auto

lemma msg_okD: "msg_ok P v \<Longrightarrow> \<exists>mm. v = VMessage mm"
  by (cases "(P, v)" rule: msg_ok.cases) auto

lemma exec_progress:
  assumes rw: "resets_within P cal" and br: "before_reset s" and rd: "ready P s (field st)"
  shows "\<exists>st'. exec cal s st = Inr st'"
proof (cases s)
  case (RangeReset F pooled)
  with rd have "list_ok (elem_ok P pooled) (field st F)" by simp
  from list_okD [OF this] show ?thesis
  proof (elim disjE exE conjE)
    assume "field st F = Some (VList NilSlice)"
    with RangeReset show ?thesis by simp
  next
    fix b n assume f: "field st F = Some (VList (Slice b n))"
      and l: "list_all (elem_ok P pooled) (take n b)"
    from reset_elems_progress [OF rw l] obtain es p' where
      "reset_elems pooled cal (take n b) (pools st) = Inr (es, p')" by blast
    with f RangeReset show ?thesis by simp
  qed
next
  case (Clear F)
  with rd have "list_ok (\<lambda>e. tag_of e \<noteq> TMessage) (field st F)" by simp
  from list_okD [OF this] Clear show ?thesis by auto
next
  case (SaveTrunc k F)
  with rd show ?thesis
    by (cases "field st F" rule: handle_cap.cases) auto
next
  case (OneofReturn G W F)
  with rd have "slot_ok (\<lambda>t v. t = W \<longrightarrow> msg_ok P v) (field st G)" by simp
  from slot_okD [OF this] show ?thesis
  proof (elim disjE exE conjE)
    assume "field st G = Some (VOneof None)"
    with OneofReturn show ?thesis by simp
  next
    fix a t u assume f: "field st G = Some (VOneof (Some (Wrapper a t u)))"
      and q: "t = W \<longrightarrow> msg_ok P u"
    show ?thesis
    proof (cases "t = W")
      case True
      with q have mu: "msg_ok P u" by simp
      then obtain mm where u: "u = VMessage mm" using msg_okD by blast
      from ReturnToVTPool_progress [OF rw mu [unfolded u]] obtain mm' p' where
        "ReturnToVTPool_sem (type_of mm) cal mm (pools st) = Inr (mm', p')" by blast
      with f True u OneofReturn show ?thesis by simp
    next
      case False
      with f OneofReturn show ?thesis by simp
    qed
  qed
next
  case (FieldReturn F)
  with rd obtain v where f: "field st F = Some v" and mv: "msg_ok P v"
    by (auto split: option.splits)
  then obtain mm where v: "v = VMessage mm" using msg_okD by blast
  from ReturnToVTPool_progress [OF rw mv [unfolded v]] obtain mm' p' where
    "ReturnToVTPool_sem (type_of mm) cal mm (pools st) = Inr (mm', p')" by blast
  with f v FieldReturn show ?thesis by simp
next
  case (OneofSave G T cs)
  with rd have "slot_ok (\<lambda>t v. t \<in> fst ` set cs \<longrightarrow> tag_of v = TBytes) (field st G)" by simp
  from slot_okD [OF this] show ?thesis
  proof (elim disjE exE conjE)
    assume "field st G = Some (VOneof None)"
    with OneofSave show ?thesis by simp
  next
    fix a t u assume f: "field st G = Some (VOneof (Some (Wrapper a t u)))"
      and q: "t \<in> fst ` set cs \<longrightarrow> tag_of u = TBytes"
    show ?thesis
    proof (cases "t \<in> fst ` set cs")
      case True
      with q obtain x where "u = VBytes x" by (cases u) auto
      with f True OneofSave show ?thesis by (simp add: Let_def)
    next
      case False
      with f OneofSave show ?thesis by simp
    qed
  qed
qed (use br in auto)

lemma field_upd_fun [simp]:
  "field (st\<lparr>pools := p\<rparr>) = field st"
  "field (st\<lparr>f_vars := fv\<rparr>) = field st"
  "field (st\<lparr>saved_vars := sv\<rparr>) = field st"
  by (rule ext, simp)+

lemma keeps_fields_upd:
  assumes "field st F0 = Some x" and "keeps P x y"
    and "\<And>F. field st' F = (if F = F0 then Some y else field st F)"
  shows "keeps_fields P (field st) (field st')"
  unfolding keeps_fields_def using assms by auto

lemma exec_step_keeps:
  assumes rw: "resets_within P cal" and ex: "exec cal s st = Inr st'"
    and br: "before_reset s" and rd: "ready P s (field st)"
  shows "keeps_fields P (field st) (field st')
       \<and> (\<forall>G w. saved_vars st' G = Some w \<longrightarrow>
             saved_vars st G = Some w \<or> okeeps P (field st' G) (Some (VOneof w)))"
proof (cases s)
  case (RangeReset F pooled)
  with rd have "list_ok (elem_ok P pooled) (field st F)" by simp
  from list_okD [OF this] show ?thesis
  proof (elim disjE exE conjE)
    assume "field st F = Some (VList NilSlice)"
    with RangeReset ex have "st' = st" by simp
    then show ?thesis by simp
  next
    fix b n assume f: "field st F = Some (VList (Slice b n))" and nb: "n \<le> length b"
    with ex RangeReset obtain es q where
      r: "reset_elems pooled cal (take n b) (pools st) = Inr (es, q)"
      and st': "st' = set_field F (VList (Slice (es @ drop n b) n)) (st\<lparr>pools := q\<rparr>)"
      by (auto split: sum.splits prod.splits)
    from reset_elems_length [OF r] have l: "length es = length (take n b)" .
    then have t: "take n (es @ drop n b) = es" by (rule take_reset)
    from l nb have lb: "length es = n" by simp
    from reset_elems_step [OF rw r] have "list_all2 (ekeeps P) (take n b) es" .
    with t lb have "keeps P (VList (Slice b n)) (VList (Slice (es @ drop n b) n))"
      by (simp add: keeps_def)
    from keeps_fields_upd [OF f this, of st'] st' show ?thesis by simp
  qed
next
  case (Clear F)
  with rd have "list_ok (\<lambda>e. tag_of e \<noteq> TMessage) (field st F)" by simp
  from list_okD [OF this] show ?thesis
  proof (elim disjE exE conjE)
    assume f: "field st F = Some (VList NilSlice)"
    with Clear ex have st': "st' = set_field F (VList NilSlice) st" by simp
    from keeps_fields_upd [OF f keeps_refl, of st'] st' show ?thesis by simp
  next
    fix b n assume f: "field st F = Some (VList (Slice b n))" and nb: "n \<le> length b"
      and nm: "list_all (\<lambda>e. tag_of e \<noteq> TMessage) (take n b)"
    with Clear ex have st': "st' = set_field F (VList (Slice (map zero (take n b) @ drop n b) n)) st"
      by simp
    have t: "take n (map zero (take n b) @ drop n b) = map zero (take n b)"
      by (rule take_reset) simp
    have z: "tag_of (zero e) = tag_of e" for e by (cases e) auto
    have "ekeeps P e (zero e)" if "tag_of e \<noteq> TMessage" for e
      using that z [of e] by (cases e) (auto simp: ekeeps_def)
    with nm have "list_all2 (ekeeps P) (take n b) (map zero (take n b))"
      by (auto simp: list_all2_conv_all_nth list_all_length)
    with t nb have "keeps P (VList (Slice b n)) (VList (Slice (map zero (take n b) @ drop n b) n))"
      by (simp add: keeps_def)
    from keeps_fields_upd [OF f this, of st'] st' show ?thesis by simp
  qed
next
  case (SaveTrunc k F)
  with ex have "field st' = field st \<and> saved_vars st' = saved_vars st"
    by (auto split: option.splits val.splits)
  then show ?thesis by simp
next
  case (OneofReturn G W F)
  with rd have "slot_ok (\<lambda>t v. t = W \<longrightarrow> msg_ok P v) (field st G)" by simp
  from slot_okD [OF this] show ?thesis
  proof (elim disjE exE conjE)
    assume "field st G = Some (VOneof None)"
    with OneofReturn ex have "st' = st" by simp
    then show ?thesis by simp
  next
    fix a t u assume f: "field st G = Some (VOneof (Some (Wrapper a t u)))"
      and q: "t = W \<longrightarrow> msg_ok P u"
    show ?thesis
    proof (cases "t = W")
      case True
      with q have mu: "msg_ok P u" by simp
      then obtain mm where u: "u = VMessage mm" using msg_okD by blast
      with ex f True OneofReturn obtain mm' p' where
        r: "ReturnToVTPool_sem (type_of mm) cal mm (pools st) = Inr (mm', p')"
        and st': "st' = set_field G (VOneof (Some (Wrapper a t (VMessage mm')))) (st\<lparr>pools := p'\<rparr>)"
        by (auto split: sum.splits prod.splits)
      from ReturnToVTPool_step [OF rw r]
      have "keeps P (VOneof (Some (Wrapper a t u))) (VOneof (Some (Wrapper a t (VMessage mm'))))"
        using u by (simp add: keeps_def)
      from keeps_fields_upd [OF f this, of st'] st' show ?thesis by simp
    next
      case False
      with f OneofReturn ex have "st' = st" by simp
      then show ?thesis by simp
    qed
  qed
next
  case (FieldReturn F)
  with rd obtain v where f: "field st F = Some v" and mv: "msg_ok P v"
    by (auto split: option.splits)
  then obtain mm where v: "v = VMessage mm" using msg_okD by blast
  with ex f FieldReturn obtain mm' p' where
    r: "ReturnToVTPool_sem (type_of mm) cal mm (pools st) = Inr (mm', p')"
    and st': "st' = set_field F (VMessage mm') (st\<lparr>pools := p'\<rparr>)"
    by (auto split: sum.splits prod.splits)
  from ReturnToVTPool_step [OF rw r] have "keeps P v (VMessage mm')"
    using v by (simp add: keeps_def)
  from keeps_fields_upd [OF f this, of st'] st' show ?thesis by simp
next
  case (OneofSave G T cs)
  with rd have "slot_ok (\<lambda>t v. t \<in> fst ` set cs \<longrightarrow> tag_of v = TBytes) (field st G)" by simp
  from slot_okD [OF this] show ?thesis
  proof (elim disjE exE conjE)
    assume f: "field st G = Some (VOneof None)"
    with OneofSave ex have st': "st' = st\<lparr>saved_vars := (saved_vars st)(G \<mapsto> None)\<rparr>" by simp
    with f show ?thesis by simp
  next
    fix a t u assume f: "field st G = Some (VOneof (Some (Wrapper a t u)))"
      and q: "t \<in> fst ` set cs \<longrightarrow> tag_of u = TBytes"
    show ?thesis
    proof (cases "t \<in> fst ` set cs")
      case True
      with q obtain x where u: "u = VBytes x" by (cases u) auto
      let ?c = "Wrapper a t (VBytes (reslice0 x))"
      from ex f True u OneofSave have
        st': "st' = set_field G (VOneof (Some ?c)) (st\<lparr>saved_vars := (saved_vars st)(G \<mapsto> Some ?c)\<rparr>)"
        by (simp add: Let_def)
      have "keeps P (VOneof (Some (Wrapper a t u))) (VOneof (Some ?c))"
        using u by (simp add: keeps_def)
      from keeps_fields_upd [OF f this, of st'] st' show ?thesis by simp
    next
      case False
      with ex f OneofSave have st': "st' = st\<lparr>saved_vars := (saved_vars st)(G \<mapsto> None)\<rparr>"
        by simp
      have "keeps P (VOneof (Some (Wrapper a t u))) (VOneof None)"
        by (simp add: keeps_def)
      with st' f show ?thesis by simp
    qed
  qed
qed (use br in auto)

subsection \<open>Lists of statements, and the variables they set\<close>

lemma exec_list_inv:
  assumes rw: "resets_within P cal"
  shows "list_all before_reset ss \<Longrightarrow> \<forall>s \<in> set ss. ready P s fs0 \<Longrightarrow>
         keeps_fields P fs0 (field st) \<Longrightarrow> sv_rel P fs0 st \<Longrightarrow>
           \<exists>st'. exec_list cal ss st = Inr st' \<and> keeps_fields P fs0 (field st') \<and> sv_rel P fs0 st'"
proof (induction ss arbitrary: st)
  case Nil
  then show ?case by simp
next
  case (Cons s ss)
  from Cons.prems have bs: "before_reset s" and r0: "ready P s fs0" by simp_all
  from ready_keeps [OF Cons.prems(3) r0] have rs: "ready P s (field st)" .
  from exec_progress [OF rw bs rs] obtain st1 where e: "exec cal s st = Inr st1" by blast
  from exec_step_keeps [OF rw e bs rs] have
    k1: "keeps_fields P (field st) (field st1)"
    and v1: "\<forall>G w. saved_vars st1 G = Some w \<longrightarrow>
               saved_vars st G = Some w \<or> okeeps P (field st1 G) (Some (VOneof w))"
    by simp_all
  from keeps_fields_trans [OF Cons.prems(3) k1] have k: "keeps_fields P fs0 (field st1)" .
  have sv: "sv_rel P fs0 st1"
    unfolding sv_rel_def
  proof (intro allI impI)
    fix G w assume a: "saved_vars st1 G = Some w"
    with v1 have "saved_vars st G = Some w \<or> okeeps P (field st1 G) (Some (VOneof w))" by blast
    then show "okeeps P (fs0 G) (Some (VOneof w))"
    proof
      assume "saved_vars st G = Some w"
      with Cons.prems(4) show ?thesis by (simp add: sv_rel_def)
    next
      assume b: "okeeps P (field st1 G) (Some (VOneof w))"
      from k have "okeeps P (fs0 G) (field st1 G)" by (simp add: keeps_fields_def)
      from okeeps_trans [OF this b] show ?thesis .
    qed
  qed
  from Cons.prems have "list_all before_reset ss" "\<forall>s \<in> set ss. ready P s fs0" by simp_all
  from Cons.IH [OF this k sv] e show ?case by simp
qed

lemma SaveTrunc_keeps:
  assumes "exec cal (SaveTrunc k F) st = Inr st'"
  shows "\<exists>x v. field st F = Some x \<and> st' = st\<lparr>f_vars := (f_vars st)(k \<mapsto> v)\<rparr> \<and> keeps P x v"
proof (cases "field st F")
  case None
  with assms show ?thesis by simp
next
  case (Some x)
  show ?thesis
  proof (cases x)
    case (VList s)
    have "keeps P (VList s) (VList (reslice0 s))" by (cases s) (auto simp: keeps_def)
    with assms Some VList show ?thesis by auto
  next
    case (VBytes s)
    have "keeps P (VBytes s) (VBytes (reslice0 s))" by (simp add: keeps_def)
    with assms Some VBytes show ?thesis by auto
  qed (use assms Some in auto)
qed

lemma loop_stmt_before_reset: "loop_stmt s \<Longrightarrow> before_reset s"
  by (cases s) auto

lemma exec_list_keeps:
  assumes rw: "resets_within P cal" and ex: "exec_list cal ss st = Inr st'"
    and br: "list_all before_reset ss" and rd: "\<forall>s \<in> set ss. ready P s fs0"
    and k: "keeps_fields P fs0 (field st)"
  shows "keeps_fields P fs0 (field st')"
proof -
  have "\<forall>s \<in> set ss. ready P s (field st)" using rd ready_keeps [OF k] by blast
  moreover have kk: "keeps_fields P (field st) (field st)" by simp
  ultimately have "\<exists>st'. exec_list cal ss st = Inr st' \<and> keeps_fields P (field st) (field st')"
    using br
  proof (induction ss arbitrary: st)
    case Nil
    then show ?case by simp
  next
    case (Cons s ss)
    from Cons.prems have bs: "before_reset s" and rs: "ready P s (field st)" by simp_all
    from exec_progress [OF rw bs rs] obtain st1 where e: "exec cal s st = Inr st1" by blast
    from exec_step_keeps [OF rw e bs rs] have k1: "keeps_fields P (field st) (field st1)" by simp
    from Cons.prems have "\<forall>s \<in> set ss. ready P s (field st1)"
      using ready_keeps [OF k1] by simp
    moreover have "keeps_fields P (field st1) (field st1)" by simp
    moreover from Cons.prems have "list_all before_reset ss" by simp
    ultimately obtain st2 where "exec_list cal ss st1 = Inr st2"
      "keeps_fields P (field st1) (field st2)"
      using Cons.IH by blast
    with e k1 show ?case using keeps_fields_trans by auto
  qed
  with ex have "keeps_fields P (field st) (field st')" by auto
  with k show ?thesis by (rule keeps_fields_trans)
qed

lemma field_loop_vars:
  assumes rw: "resets_within P cal"
  shows "field_loop cfg g fs saved ob = (out, saved', ob') \<Longrightarrow>
         exec_list cal out st = Inr st' \<Longrightarrow> \<forall>s \<in> set out. ready P s fs0 \<Longrightarrow>
         keeps_fields P fs0 (field st) \<Longrightarrow> vars_rel P fs0 saved st \<Longrightarrow>
           vars_rel P fs0 saved' st'"
proof (induction fs arbitrary: saved ob out st)
  case Nil
  then show ?case by simp
next
  case (Cons f fs)
  obtain o1 s1 ob1 where step: "field_step cfg g f saved ob = (o1, s1, ob1)"
    by (cases "field_step cfg g f saved ob") auto
  obtain o2 s2 ob2 where loop: "field_loop cfg g fs s1 ob1 = (o2, s2, ob2)"
    by (cases "field_loop cfg g fs s1 ob1") auto
  from Cons.prems(1) step loop have out: "out = o1 @ o2" and s2: "saved' = s2" and ob2: "ob' = ob2"
    by simp_all
  from Cons.prems(2) out obtain st1 where e1: "exec_list cal o1 st = Inr st1"
    and e2: "exec_list cal o2 st1 = Inr st'"
    by (auto dest: exec_list_appendD)
  from Cons.prems(3) out have r1: "\<forall>s \<in> set o1. ready P s fs0" and r2: "\<forall>s \<in> set o2. ready P s fs0"
    by simp_all
  from field_step_shape [OF step] obtain pre where pre: "list_all plain pre"
    and o1: "if keeps_handle f
             then o1 = pre @ [SaveTrunc (length saved) (f_GoName f)] \<and> s1 = saved @ [f]
             else o1 = pre \<and> s1 = saved"
    by blast
  have bpre: "list_all before_reset pre"
    using pre by (auto simp: list_all_iff plain_before_reset)
  have bo1: "list_all before_reset o1"
    using o1 bpre by (auto split: if_splits)
  from exec_list_keeps [OF rw e1 bo1 r1 Cons.prems(4)] have k1: "keeps_fields P fs0 (field st1)" .
  have v1: "vars_rel P fs0 s1 st1"
  proof (cases "keeps_handle f")
    case False
    with o1 have "o1 = pre" "s1 = saved" by simp_all
    with e1 pre exec_list_plain [of cal pre st st1 "field st"] Cons.prems(5)
    show ?thesis by (simp add: vars_rel_def same_shape_def)
  next
    case True
    with o1 have o1': "o1 = pre @ [SaveTrunc (length saved) (f_GoName f)]"
      and s1': "s1 = saved @ [f]" by simp_all
    from e1 o1' obtain sta where ea: "exec_list cal pre st = Inr sta"
      and eb: "exec cal (SaveTrunc (length saved) (f_GoName f)) sta = Inr st1"
      by (auto dest!: exec_list_appendD split: sum.splits)
    from exec_list_plain [OF ea pre, of "field st"] have fva: "f_vars sta = f_vars st"
      by (simp add: same_shape_def)
    from r1 o1' have rpre: "\<forall>s \<in> set pre. ready P s fs0" by simp
    from exec_list_keeps [OF rw ea bpre rpre Cons.prems(4)] have ka: "keeps_fields P fs0 (field sta)" .
    from SaveTrunc_keeps [OF eb] obtain x v where
      fx: "field sta (f_GoName f) = Some x"
      and st1: "st1 = sta\<lparr>f_vars := (f_vars sta)(length saved \<mapsto> v)\<rparr>"
      and kv: "keeps P x v"
      by blast
    from ka have "okeeps P (fs0 (f_GoName f)) (field sta (f_GoName f))" by (simp add: keeps_fields_def)
    with fx kv have new: "okeeps P (fs0 (f_GoName f)) (Some v)"
      using okeeps_trans [of P "fs0 (f_GoName f)" "Some x" "Some v"] by simp
    show ?thesis
      unfolding vars_rel_def
    proof (intro allI impI)
      fix k assume k: "k < length s1"
      show "\<exists>v. f_vars st1 k = Some v \<and> okeeps P (fs0 (f_GoName (s1 ! k))) (Some v)"
      proof (cases "k < length saved")
        case True
        with Cons.prems(5) obtain u where "f_vars st k = Some u"
          "okeeps P (fs0 (f_GoName (saved ! k))) (Some u)"
          by (auto simp: vars_rel_def)
        with True st1 s1' fva show ?thesis by (simp add: nth_append)
      next
        case False
        with k s1' have "k = length saved" by simp
        with st1 s1' new show ?thesis by simp
      qed
    qed
  qed
  from loop s2 ob2 have loop': "field_loop cfg g fs s1 ob1 = (o2, saved', ob')" by simp
  from Cons.IH [OF loop' e2 r2 k1 v1] show ?case .
qed

lemma saves_defined:
  "exec_list cal (map (save_group g T ob) ks) st = Inr st' \<Longrightarrow>
     (\<forall>G \<in> set ks. saved_vars st' G \<noteq> None)
     \<and> (\<forall>G. saved_vars st G \<noteq> None \<longrightarrow> saved_vars st' G \<noteq> None)
     \<and> f_vars st' = f_vars st"
proof (induction ks arbitrary: st)
  case Nil
  then show ?case by simp
next
  case (Cons k ks)
  from Cons.prems obtain st1 where s1: "exec cal (save_group g T ob k) st = Inr st1"
    and s2: "exec_list cal (map (save_group g T ob) ks) st1 = Inr st'"
    by (auto split: sum.splits)
  from s1 have a: "saved_vars st1 k \<noteq> None" "\<forall>G. saved_vars st G \<noteq> None \<longrightarrow> saved_vars st1 G \<noteq> None"
    "f_vars st1 = f_vars st"
    by (auto simp: save_group_def Let_def split: option.splits val.splits wrapper.splits if_splits)
  from Cons.IH [OF s2] a show ?case by auto
qed

lemma tag_of_zero [simp]: "tag_of (zero x) = tag_of x"
  by (cases x) auto

lemma keeps_zero: "keeps P x (zero x)"
  by (cases x) (auto simp: keeps_def)

lemma ResetAll_keeps: "keeps_fields P (field st) (field (st\<lparr>self := zero_fields (self st)\<rparr>))"
proof -
  have "okeeps P (field st F) (field (st\<lparr>self := zero_fields (self st)\<rparr>) F)" for F
    by (cases "map_of (self st) F") (simp_all add: field_def map_of_zero_fields keeps_zero)
  then show ?thesis by (simp add: keeps_fields_def)
qed

lemma restores_inv:
  "\<forall>j < length xs. \<exists>v. f_vars st (n + j) = Some v \<and> okeeps P (fs0 (f_GoName (xs ! j))) (Some v) \<Longrightarrow>
   keeps_fields P fs0 (field st) \<Longrightarrow>
     \<exists>st'. exec_list cal (map (\<lambda>(i, f). Restore (f_GoName f) i) (enumerate n xs)) st = Inr st'
          \<and> keeps_fields P fs0 (field st') \<and> saved_vars st' = saved_vars st"
proof (induction xs arbitrary: n st)
  case Nil
  then show ?case by simp
next
  case (Cons x xs)
  from Cons.prems(1) have "\<exists>v. f_vars st (n + 0) = Some v \<and> okeeps P (fs0 (f_GoName ((x # xs) ! 0))) (Some v)"
    by blast
  then obtain v where v: "f_vars st n = Some v" and kv: "okeeps P (fs0 (f_GoName x)) (Some v)"
    by auto
  from kv obtain x0 where x0: "fs0 (f_GoName x) = Some x0" by (auto simp: okeeps_SomeR)
  from keeps_fieldsD [OF Cons.prems(2) x0] obtain y where y: "field st (f_GoName x) = Some y" by blast
  let ?st1 = "set_field (f_GoName x) v st"
  from v y have e: "exec cal (Restore (f_GoName x) n) st = Inr ?st1" by simp
  have k1: "keeps_fields P fs0 (field ?st1)"
    using Cons.prems(2) kv by (simp add: keeps_fields_def)
  have shift: "\<forall>j < length xs. \<exists>v. f_vars ?st1 (Suc n + j) = Some v
                 \<and> okeeps P (fs0 (f_GoName (xs ! j))) (Some v)"
  proof (intro allI impI)
    fix j assume "j < length xs"
    then have "Suc j < length (x # xs)" by simp
    with Cons.prems(1) have "\<exists>v. f_vars st (n + Suc j) = Some v
        \<and> okeeps P (fs0 (f_GoName ((x # xs) ! Suc j))) (Some v)" by blast
    then show "\<exists>v. f_vars ?st1 (Suc n + j) = Some v \<and> okeeps P (fs0 (f_GoName (xs ! j))) (Some v)"
      by simp
  qed
  from Cons.IH [OF shift k1] e show ?case by simp
qed

lemma oneof_restores_inv:
  "\<forall>G \<in> set Gs. saved_vars st G \<noteq> None \<Longrightarrow> sv_rel P fs0 st \<Longrightarrow> keeps_fields P fs0 (field st) \<Longrightarrow>
     \<exists>st'. exec_list cal (map OneofRestore Gs) st = Inr st' \<and> keeps_fields P fs0 (field st')"
proof (induction Gs arbitrary: st)
  case Nil
  then show ?case by simp
next
  case (Cons G Gs)
  from Cons.prems(1) obtain w where w: "saved_vars st G = Some w" by auto
  with Cons.prems(2) have kw: "okeeps P (fs0 G) (Some (VOneof w))" by (simp add: sv_rel_def)
  then obtain x0 where x0: "fs0 G = Some x0" by (auto simp: okeeps_SomeR)
  from keeps_fieldsD [OF Cons.prems(3) x0] obtain y where y: "field st G = Some y" by blast
  let ?st1 = "set_field G (VOneof w) st"
  from w y have e: "exec cal (OneofRestore G) st = Inr ?st1" by simp
  have k1: "keeps_fields P fs0 (field ?st1)"
    using Cons.prems(3) kw by (simp add: keeps_fields_def)
  have s1: "sv_rel P fs0 ?st1" using Cons.prems(2) by (simp add: sv_rel_def)
  have d1: "\<forall>G \<in> set Gs. saved_vars ?st1 G \<noteq> None" using Cons.prems(1) by simp
  from Cons.IH [OF d1 s1 k1] e show ?case by simp
qed

subsection \<open>An instance is ready for every statement printed for its message\<close>

lemma list_ok_cap: "list_ok Q v \<Longrightarrow> handle_cap v \<noteq> None"
  by (cases "(Q, v)" rule: list_ok.cases) auto

lemma list_ok_mono: "list_ok Q v \<Longrightarrow> (\<And>e. Q e \<Longrightarrow> Q' e) \<Longrightarrow> list_ok Q' v"
  by (cases "(Q, v)" rule: list_ok.cases) (auto simp: list_all_iff)

lemma field_step_ready:
  assumes h: "holds P cfg g fld fs" and step: "field_step cfg g fld saved ob = (out, saved', ob')"
  shows "\<forall>s \<in> set out. ready P s fs"
proof -
  let ?pooled = "ShouldPool cfg (f_Message fld)"
  let ?F = "f_GoName fld"
  show ?thesis
  proof (cases "f_IsList fld")
    case True
    let ?Q = "if f_Kind fld = MessageKind \<or> f_Kind fld = GroupKind then elem_ok P ?pooled
              else kind_ok P ?pooled (f_Kind fld)"
    from h True have l: "list_ok ?Q (fs ?F)" by (simp add: holds_def Let_def)
    from list_ok_cap [OF l] have c: "ready P (SaveTrunc (length saved) ?F) fs" by simp
    have r: "ready P (RangeReset ?F ?pooled) fs"
      if "f_Kind fld = MessageKind \<or> f_Kind fld = GroupKind"
      using l that by auto
    have cl: "ready P (Clear ?F) fs" if "f_Kind fld = BytesKind \<or> f_Kind fld = StringKind"
    proof -
      have "list_ok (\<lambda>e. tag_of e \<noteq> TMessage) (fs ?F)"
        by (rule list_ok_mono [OF l]) (use that in \<open>auto simp: kind_ok_def\<close>)
      then show ?thesis by simp
    qed
    from step True c r cl show ?thesis
      by (cases "f_Kind fld") (auto simp: field_step_def Let_def)
  next
    case False
    show ?thesis
    proof (cases "in_real_oneof fld")
      case True
      let ?W = "QualifiedGoIdent g (f_GoIdent fld)"
      from h True False have
        s: "slot_ok (\<lambda>t v. t = ?W \<longrightarrow> kind_ok P ?pooled (f_Kind fld) v) (fs (Oneof_GoName fld))"
        by (simp add: holds_def Let_def)
      have "ready P (OneofReturn (Oneof_GoName fld) ?W ?F) fs"
        if "f_Kind fld = MessageKind \<or> f_Kind fld = GroupKind" "?pooled"
        using slot_okD [OF s] that by (auto simp: kind_ok_def)
      with step True False show ?thesis
        by (cases "f_Kind fld") (auto simp: field_step_def Let_def split: if_splits)
    next
      case noo: False
      from h False noo obtain x where x: "fs ?F = Some x"
        and hx: "if f_IsMap fld \<and> (f_Kind fld = MessageKind \<or> f_Kind fld = GroupKind)
                 then tag_of x = TMap else kind_ok P ?pooled (f_Kind fld) x"
        by (auto simp: holds_def Let_def split: option.splits)
      have fr: "ready P (FieldReturn ?F) fs"
        if "f_Kind fld = MessageKind \<or> f_Kind fld = GroupKind" "\<not> f_IsMap fld" "?pooled"
        using x hx that by (auto simp: kind_ok_def)
      have sv: "ready P (SaveTrunc (length saved) ?F) fs" if "f_Kind fld = BytesKind"
        using x hx that handle_cap_iff [of "fs ?F"] by (auto simp: kind_ok_def)
      from step False noo fr sv show ?thesis
        by (cases "f_Kind fld") (auto simp: field_step_def Let_def split: if_splits)
    qed
  qed
qed

lemma field_loop_ready:
  "field_loop cfg g fs saved ob = (out, saved', ob') \<Longrightarrow>
   \<forall>fld \<in> set fs. holds P cfg g fld fs0 \<Longrightarrow> \<forall>s \<in> set out. ready P s fs0"
proof (induction fs arbitrary: saved ob out saved' ob')
  case Nil
  then show ?case by simp
next
  case (Cons f fs)
  obtain o1 s1 ob1 where step: "field_step cfg g f saved ob = (o1, s1, ob1)"
    by (cases "field_step cfg g f saved ob") auto
  obtain o2 s2 ob2 where loop: "field_loop cfg g fs s1 ob1 = (o2, s2, ob2)"
    by (cases "field_loop cfg g fs s1 ob1") auto
  from Cons.prems(1) step loop have out: "out = o1 @ o2" by simp
  from Cons.prems(2) have hf: "holds P cfg g f fs0" and hfs: "\<forall>fld \<in> set fs. holds P cfg g fld fs0"
    by simp_all
  from field_step_ready [OF hf step] Cons.IH [OF loop hfs] out show ?case by auto
qed

lemma field_loop_ob:
  "field_loop cfg g fs saved ob = (out, saved', ob') \<Longrightarrow>
     set ob' \<subseteq> set ob \<union> {f \<in> set fs. keeps_wrapper f}"
proof (induction fs arbitrary: saved ob out saved' ob')
  case Nil
  then show ?case by simp
next
  case (Cons f fs)
  obtain o1 s1 ob1 where step: "field_step cfg g f saved ob = (o1, s1, ob1)"
    by (cases "field_step cfg g f saved ob") auto
  obtain o2 s2 ob2 where loop: "field_loop cfg g fs s1 ob1 = (o2, s2, ob2)"
    by (cases "field_loop cfg g fs s1 ob1") auto
  from Cons.prems step loop have ob2: "ob' = ob2" by simp
  from field_step_shape [OF step] have "ob1 = (if keeps_wrapper f then ob @ [f] else ob)" by blast
  with Cons.IH [OF loop] ob2 show ?case by (auto split: if_splits)
qed

lemma save_oneofs_ready:
  assumes ob: "\<forall>f \<in> set ob. keeps_wrapper f \<and> holds P cfg g f fs0"
    and ord: "is_range_order (range_save g)"
  shows "\<forall>s \<in> set (save_oneofs g T ob). ready P s fs0"
proof
  fix s assume "s \<in> set (save_oneofs g T ob)"
  then obtain G where G: "G \<in> set (range_save g (group_keys ob))" and s: "s = save_group g T ob G"
    by (auto simp: save_oneofs_def split: if_splits)
  from G range_order_set [OF ord distinct_group_keys] have "G \<in> Oneof_GoName ` set ob"
    by (simp add: set_group_keys)
  then obtain f where f: "f \<in> set ob" "Oneof_GoName f = G" by auto
  have slot: "slot_ok (\<lambda>t v. t = QualifiedGoIdent g (f_GoIdent f') \<longrightarrow> tag_of v = TBytes) (fs0 G)"
    if "f' \<in> set ob" "Oneof_GoName f' = G" for f'
  proof -
    from ob that have "keeps_wrapper f'" "holds P cfg g f' fs0" by auto
    then show ?thesis using that(2)
      by (simp add: holds_def keeps_wrapper_def Let_def kind_ok_def)
  qed
  let ?cases = "map (\<lambda>field. (QualifiedGoIdent g (f_GoIdent field), f_GoName field))
                  (case oneofGroups ob G of None \<Rightarrow> [] | Some fs \<Rightarrow> fs)"
  have mem: "\<exists>f' \<in> set ob. Oneof_GoName f' = G \<and> t = QualifiedGoIdent g (f_GoIdent f')"
    if "t \<in> fst ` set ?cases" for t
    using that by (auto simp: oneofGroups_eq split: if_splits)
  from slot_okD [OF slot [OF f]] have "slot_ok (\<lambda>t v. t \<in> fst ` set ?cases \<longrightarrow> tag_of v = TBytes) (fs0 G)"
  proof (elim disjE exE conjE)
    assume "fs0 G = Some (VOneof None)"
    then show ?thesis by simp
  next
    fix a t u assume fg: "fs0 G = Some (VOneof (Some (Wrapper a t u)))"
    have "tag_of u = TBytes" if "t \<in> fst ` set ?cases"
    proof -
      from mem [OF that] obtain f' where "f' \<in> set ob" "Oneof_GoName f' = G"
        "t = QualifiedGoIdent g (f_GoIdent f')" by blast
      with slot [of f'] fg show ?thesis by simp
    qed
    with fg show ?thesis by simp
  qed
  with s show "ready P s fs0" by (simp add: save_group_def)
qed

subsection \<open>The body returns, on an instance again\<close>

lemma run_body_returns:
  assumes rw: "resets_within P cal" and inst: "instance_of P cfg g msg m"
    and o1: "is_range_order (range_save g)" and o2: "is_range_order (range_restore g)"
  shows "\<exists>m' p'. run_body cal (ResetVT_body cfg g msg) m p = Inr (m', p')
           \<and> keeps_fields P (get_field m) (get_field m') \<and> i_type m' = i_type m"
proof -
  define st0 where "st0 = \<lparr>self = i_fields m, f_vars = Map.empty, saved_vars = Map.empty, pools = p\<rparr>"
  define fs0 where "fs0 = field st0"
  have fs0: "fs0 = get_field m" by (rule ext) (simp add: fs0_def st0_def field_def get_field_def)
  obtain out saved ob where loop: "field_loop cfg g (m_Fields msg) [] [] = (out, saved, ob)"
    by (cases "field_loop cfg g (m_Fields msg) [] []") auto
  define T where "T = QualifiedGoIdent g (m_GoIdent msg)"
  have body: "ResetVT_body cfg g msg =
      out @ (save_oneofs g T ob @ (ResetAll # (restore_saved saved @ restore_oneofs g ob)))"
    by (simp add: ResetVT_body_def loop T_def)
  from inst have hs: "\<forall>fld \<in> set (m_Fields msg). holds P cfg g fld fs0"
    by (simp add: instance_of_def list_all_iff fs0)
  have k0: "keeps_fields P fs0 (field st0)" by (simp add: fs0_def)
  have sv0: "sv_rel P fs0 st0" by (simp add: sv_rel_def st0_def)
  have v0: "vars_rel P fs0 [] st0" by (simp add: vars_rel_def)
  have bout: "list_all before_reset out"
    using field_loop_stmts [OF loop] by (auto simp: list_all_iff loop_stmt_before_reset)
  have rout: "\<forall>s \<in> set out. ready P s fs0" by (rule field_loop_ready [OF loop hs])
  from exec_list_inv [OF rw bout rout k0 sv0] obtain st1 where
    e1: "exec_list cal out st0 = Inr st1" and k1: "keeps_fields P fs0 (field st1)"
    and sv1: "sv_rel P fs0 st1" by blast
  from field_loop_vars [OF rw loop e1 rout k0 v0] have v1: "vars_rel P fs0 saved st1" .
  from field_loop_ob [OF loop] hs have obh: "\<forall>f \<in> set ob. keeps_wrapper f \<and> holds P cfg g f fs0"
    by auto
  have bsav: "list_all before_reset (save_oneofs g T ob)"
    using save_oneofs_saves [of g T ob] by (auto simp: list_all_iff is_save_before_reset)
  from exec_list_inv [OF rw bsav save_oneofs_ready [OF obh o1] k1 sv1] obtain st2 where
    e2: "exec_list cal (save_oneofs g T ob) st1 = Inr st2" and k2: "keeps_fields P fs0 (field st2)"
    and sv2: "sv_rel P fs0 st2" by blast
  have fv2: "f_vars st2 = f_vars st1"
    and def2: "length ob > 0 \<longrightarrow> (\<forall>G \<in> set (range_save g (group_keys ob)). saved_vars st2 G \<noteq> None)"
  proof -
    show "f_vars st2 = f_vars st1"
    proof (cases "length ob > 0")
      case True
      with e2 saves_defined [of cal g T ob "range_save g (group_keys ob)" st1 st2]
      show ?thesis by (simp add: save_oneofs_def)
    next
      case False
      with e2 show ?thesis by (simp add: save_oneofs_def)
    qed
    show "length ob > 0 \<longrightarrow> (\<forall>G \<in> set (range_save g (group_keys ob)). saved_vars st2 G \<noteq> None)"
    proof
      assume "length ob > 0"
      with e2 saves_defined [of cal g T ob "range_save g (group_keys ob)" st1 st2]
      show "\<forall>G \<in> set (range_save g (group_keys ob)). saved_vars st2 G \<noteq> None"
        by (simp add: save_oneofs_def)
    qed
  qed
  define st3 where "st3 = st2\<lparr>self := zero_fields (self st2)\<rparr>"
  have e3: "exec cal ResetAll st2 = Inr st3" by (simp add: st3_def)
  have k3: "keeps_fields P fs0 (field st3)"
    unfolding st3_def by (rule keeps_fields_trans [OF k2 ResetAll_keeps])
  have fv3: "f_vars st3 = f_vars st1" and sv3e: "saved_vars st3 = saved_vars st2"
    by (simp_all add: st3_def fv2)
  have hyp: "\<forall>j < length saved. \<exists>v. f_vars st3 (0 + j) = Some v
               \<and> okeeps P (fs0 (f_GoName (saved ! j))) (Some v)"
    using v1 fv3 by (simp add: vars_rel_def)
  from restores_inv [OF hyp k3] obtain st4 where
    e4: "exec_list cal (restore_saved saved) st3 = Inr st4" and k4: "keeps_fields P fs0 (field st4)"
    and sv4e: "saved_vars st4 = saved_vars st3"
    unfolding restore_saved_def by blast
  have sv4: "sv_rel P fs0 st4" using sv2 sv4e sv3e by (simp add: sv_rel_def)
  have "\<exists>stE. exec_list cal (restore_oneofs g ob) st4 = Inr stE \<and> keeps_fields P fs0 (field stE)"
  proof (cases "length ob > 0")
    case True
    have "set (range_restore g (group_keys ob)) = set (range_save g (group_keys ob))"
      using range_order_set [OF o1 distinct_group_keys] range_order_set [OF o2 distinct_group_keys]
      by simp
    with def2 True sv4e sv3e have "\<forall>G \<in> set (range_restore g (group_keys ob)). saved_vars st4 G \<noteq> None"
      by simp
    from oneof_restores_inv [OF this sv4 k4] True show ?thesis by (simp add: restore_oneofs_def)
  next
    case False
    with k4 show ?thesis by (simp add: restore_oneofs_def)
  qed
  then obtain stE where e5: "exec_list cal (restore_oneofs g ob) st4 = Inr stE"
    and kE: "keeps_fields P fs0 (field stE)" by blast
  have ex: "exec_list cal (ResetVT_body cfg g msg) st0 = Inr stE"
    unfolding body by (simp add: exec_list_append e1 e2 e3 e4 e5 del: exec.simps)
  have "run_body cal (ResetVT_body cfg g msg) m p = Inr (Inst (i_type m) (self stE), pools stE)"
    using ex by (simp add: run_body_def st0_def)
  moreover have "get_field (Inst (i_type m) (self stE)) = field stE"
    by (rule ext) (simp add: get_field_def field_def)
  ultimately show ?thesis using kE fs0 by auto
qed

subsection \<open>The generated program returns, by the depth of the instance\<close>

lemma Reset_sem_keeps: "keeps_fields P (get_field i) (get_field (Reset_sem i))"
proof -
  have "okeeps P (get_field i F) (get_field (Reset_sem i) F)" for F
    by (cases "map_of (i_fields i) F")
       (simp_all add: get_field_def Reset_sem_def map_of_zero_fields keeps_zero)
  then show ?thesis by (simp add: keeps_fields_def)
qed

lemma ResetVT_fuel_resets_within:
  assumes gen: "generated_for schema cfg g decls"
    and o1: "is_range_order (range_save g)" and o2: "is_range_order (range_restore g)"
  shows "resets_within (well_formed schema cfg g n) (ResetVT_fuel decls n)"
proof (induction n)
  case 0
  show ?case by (simp add: resets_within_def)
next
  case (Suc n)
  let ?P = "well_formed schema cfg g n"
  show ?case
    unfolding resets_within_def
  proof (intro allI impI conjI)
    fix i assume wf: "well_formed schema cfg g (Suc n) i"
    then obtain msg where sc: "schema (i_type i) = Some msg" and inst: "instance_of ?P cfg g msg i"
      by (auto split: option.splits)
    from instance_of_keeps [OF inst Reset_sem_keeps] sc
    show "well_formed schema cfg g (Suc n) (Reset_sem i)" by (simp add: Reset_sem_def)
    fix p
    from gen sc have lk: "lookup_ResetVT decls (i_type i) = Some (ResetVT_body cfg g msg)"
      by (simp add: generated_for_def)
    from run_body_returns [OF Suc.IH inst o1 o2, of p] obtain m' p' where
      run: "run_body (ResetVT_fuel decls n) (ResetVT_body cfg g msg) i p = Inr (m', p')"
      and k: "keeps_fields ?P (get_field i) (get_field m')" and ty: "i_type m' = i_type i"
      by blast
    from instance_of_keeps [OF inst k] sc ty have "well_formed schema cfg g (Suc n) m'" by simp
    with run lk show "\<exists>i' p'. ResetVT_fuel decls (Suc n) i p = Inr (i', p')
                        \<and> well_formed schema cfg g (Suc n) i'"
      by simp
  qed
qed

lemma call_ResetVT_returns:
  assumes gen: "generated_for schema cfg g decls"
    and o1: "is_range_order (range_save g)" and o2: "is_range_order (range_restore g)"
    and sc: "schema T = Some msg" and ty: "i_type m = T"
    and wf: "well_formed schema cfg g (Suc fuel) m"
  shows "\<exists>m' p'. run_body (ResetVT_fuel decls fuel) (ResetVT_body cfg g msg) m p = Inr (m', p')
           \<and> lookup_ResetVT decls T = Some (ResetVT_body cfg g msg)
           \<and> well_formed schema cfg g (Suc fuel) m' \<and> i_type m' = T"
proof -
  let ?P = "well_formed schema cfg g fuel"
  from wf sc ty have inst: "instance_of ?P cfg g msg m" by simp
  from run_body_returns [OF ResetVT_fuel_resets_within [OF gen o1 o2] inst o1 o2, of p]
  obtain m' p' where
    run: "run_body (ResetVT_fuel decls fuel) (ResetVT_body cfg g msg) m p = Inr (m', p')"
    and k: "keeps_fields ?P (get_field m) (get_field m')" and t: "i_type m' = i_type m"
    by blast
  from instance_of_keeps [OF inst k] sc ty t have "well_formed schema cfg g (Suc fuel) m'" by simp
  with run gen sc ty t show ?thesis by (auto simp: generated_for_def)
qed

lemma call_ReturnToVTPool_keeps_handles:
  assumes gen: "generated_for schema cfg g decls" and hp: "has_pool decls T"
    and o1: "is_range_order (range_save g)" and o2: "is_range_order (range_restore g)"
    and sc: "schema T = Some msg" and ty: "i_type m = T"
    and wf: "well_formed schema cfg g (Suc fuel) m"
    and fld: "fld \<in> set (m_Fields msg)" and kh: "keeps_handle fld"
  shows "\<exists>m' q. call_ReturnToVTPool decls fuel T (Some m) p = Inr (Some m', Put T m' q)
            \<and> call_FromVTPool decls T new (Some (length (q T))) (Put T m' q) = Inr (m', q)
            \<and> handle_len (get_field m' (f_GoName fld)) = Some 0
            \<and> handle_cap (get_field m' (f_GoName fld)) = handle_cap (get_field m (f_GoName fld))
            \<and> handle_cap (get_field m (f_GoName fld)) \<noteq> None"
proof -
  from call_ResetVT_returns [OF gen o1 o2 sc ty wf, of p] obtain m' q where
    run: "run_body (ResetVT_fuel decls fuel) (ResetVT_body cfg g msg) m p = Inr (m', q)"
    and lk: "lookup_ResetVT decls T = Some (ResetVT_body cfg g msg)"
    by blast
  have c: "call_ReturnToVTPool decls fuel T (Some m) p = Inr (Some m', Put T m' q)"
    using hp lk run by (simp add: call_ReturnToVTPool_def has_pool_def ReturnToVTPool_sem_def)
  have "Get T new (Some (length (q T))) (Put T m' q) = (m', q)"
    by (auto simp: Get_def Put_def)
  then have f: "call_FromVTPool decls T new (Some (length (q T))) (Put T m' q) = Inr (m', q)"
    using hp by (simp add: call_FromVTPool_def has_pool_def)
  from run_body_keeps_handles [OF run fld kh] c f show ?thesis by blast
qed

lemma call_ResetVT_keeps_wrapper:
  assumes gen: "generated_for schema cfg g decls"
    and o1: "is_range_order (range_save g)" and o2: "is_range_order (range_restore g)"
    and sc: "schema T = Some msg" and ty: "i_type m = T"
    and wf: "well_formed schema cfg g (Suc fuel) m"
    and fld: "fld \<in> set (m_Fields msg)" and kw: "keeps_wrapper fld"
    and slot: "get_field m (Oneof_GoName fld)
           = Some (VOneof (Some (Wrapper a (QualifiedGoIdent g (f_GoIdent fld)) (VBytes b))))"
  shows "\<exists>m' p'. call_ResetVT decls fuel T (Some m) p = Inr (Some m', p')
       \<and> get_field m' (Oneof_GoName fld)
           = Some (VOneof (Some (Wrapper a (QualifiedGoIdent g (f_GoIdent fld)) (VBytes (reslice0 b)))))
       \<and> len (reslice0 b) = 0 \<and> cap (reslice0 b) = cap b"
proof -
  from call_ResetVT_returns [OF gen o1 o2 sc ty wf, of p] obtain m' q where
    run: "run_body (ResetVT_fuel decls fuel) (ResetVT_body cfg g msg) m p = Inr (m', q)"
    and lk: "lookup_ResetVT decls T = Some (ResetVT_body cfg g msg)"
    by blast
  have c: "call_ResetVT decls fuel T (Some m) p = Inr (Some m', q)"
    using lk run by (simp add: call_ResetVT_def ResetVT_sem_def)
  from run_body_keeps_wrapper [OF run fld kw o1 o2 slot] c show ?thesis by auto
qed

subsection \<open>A deeper bound admits more instances\<close>

lemma msg_ok_mono: "msg_ok P v \<Longrightarrow> (\<And>i. P i \<Longrightarrow> P' i) \<Longrightarrow> msg_ok P' v"
  by (cases "(P, v)" rule: msg_ok.cases) auto

lemma slot_ok_mono: "slot_ok Q v \<Longrightarrow> (\<And>t u. Q t u \<Longrightarrow> Q' t u) \<Longrightarrow> slot_ok Q' v"
  by (cases "(Q, v)" rule: slot_ok.cases) auto

lemma holds_mono:
  assumes h: "holds P cfg g fld fs" and m: "\<And>i. P i \<Longrightarrow> P' i"
  shows "holds P' cfg g fld fs"
proof -
  have k: "kind_ok P pooled kind v \<Longrightarrow> kind_ok P' pooled kind v" for pooled kind v
    using msg_ok_mono [of P v P'] m by (auto simp: kind_ok_def split: if_splits)
  have e: "elem_ok P pooled v \<Longrightarrow> elem_ok P' pooled v" for pooled v
    using msg_ok_mono [of P v P'] m by (auto simp: elem_ok_def split: if_splits)
  show ?thesis
  proof (cases "f_IsList fld")
    case True
    with h list_ok_mono [of _ "fs (f_GoName fld)"] k e show ?thesis
      by (auto simp: holds_def Let_def split: if_splits)
  next
    case False
    show ?thesis
    proof (cases "in_real_oneof fld")
      case True
      with h False slot_ok_mono [of _ "fs (Oneof_GoName fld)"] k show ?thesis
        by (auto simp: holds_def Let_def)
    next
      case noo: False
      with h False k show ?thesis
        by (auto simp: holds_def Let_def split: option.splits if_splits)
    qed
  qed
qed

lemma instance_of_mono:
  "instance_of P cfg g msg m \<Longrightarrow> (\<And>i. P i \<Longrightarrow> P' i) \<Longrightarrow> instance_of P' cfg g msg m"
  unfolding instance_of_def list_all_iff using holds_mono by blast

lemma well_formed_Suc: "well_formed schema cfg g n i \<Longrightarrow> well_formed schema cfg g (Suc n) i"
proof (induction n arbitrary: i)
  case 0
  then show ?case by simp
next
  case (Suc n)
  from Suc.prems obtain msg where sc: "schema (i_type i) = Some msg"
    and inst: "instance_of (well_formed schema cfg g n) cfg g msg i"
    by (auto split: option.splits)
  have "instance_of (well_formed schema cfg g (Suc n)) cfg g msg i"
    by (rule instance_of_mono [OF inst]) (rule Suc.IH)
  with sc show ?case by (simp del: well_formed.simps(2) add: well_formed.simps(2) [of _ _ _ "Suc n"])
qed

lemma well_formed_mono:
  "well_formed schema cfg g n i \<Longrightarrow> n \<le> k \<Longrightarrow> well_formed schema cfg g k i"
  by (induction k) (auto simp: le_Suc_eq well_formed_Suc simp del: well_formed.simps)

subsection \<open>The loop over the elements, element by element\<close>

lemma reset_elems_trace:
  "reset_elems pooled cal xs p = Inr (es, p') \<Longrightarrow>
     \<exists>ps. length ps = Suc (length xs) \<and> ps ! 0 = p \<and> ps ! length xs = p'
         \<and> (\<forall>i < length xs. reset_elem pooled cal (xs ! i) (ps ! i) = Inr (es ! i, ps ! Suc i))"
proof (induction xs arbitrary: es p)
  case Nil
  then show ?case by (auto intro: exI [of _ "[p]"])
next
  case (Cons e xs)
  from Cons.prems obtain e' p1 es' where
    a: "reset_elem pooled cal e p = Inr (e', p1)"
    and b: "reset_elems pooled cal xs p1 = Inr (es', p')" and es: "es = e' # es'"
    by (auto split: sum.splits prod.splits)
  from Cons.IH [OF b] obtain ps where ps: "length ps = Suc (length xs)" "ps ! 0 = p1"
    "ps ! length xs = p'"
    "\<forall>i < length xs. reset_elem pooled cal (xs ! i) (ps ! i) = Inr (es' ! i, ps ! Suc i)"
    by blast
  have "\<forall>i < length (e # xs). reset_elem pooled cal ((e # xs) ! i) ((p # ps) ! i)
          = Inr (es ! i, (p # ps) ! Suc i)"
  proof (intro allI impI)
    fix i assume "i < length (e # xs)"
    then show "reset_elem pooled cal ((e # xs) ! i) ((p # ps) ! i) = Inr (es ! i, (p # ps) ! Suc i)"
      using a ps es by (cases i) auto
  qed
  with ps show ?case by (intro exI [of _ "p # ps"]) simp
qed

lemma reset_elem_cases:
  assumes "reset_elem pooled cal e q = Inr (e', q')"
  shows "(pooled \<and> e = VMessage None \<and> e' = VMessage None \<and> q' = q)
       \<or> (\<exists>i. e = VMessage (Some i)
             \<and> (if pooled then \<exists>i'. cal i q = Inr (i', q') \<and> e' = VMessage (Some i')
                else e' = VMessage (Some (Reset_sem i)) \<and> q' = q))"
  using assms
  by (auto simp: reset_elem_def split: val.splits option.splits if_splits sum.splits prod.splits)

subsection \<open>The declarations of a file\<close>

lemma message_unfold:
  "message cfg g msg = concat (map (message cfg g) (m_Messages msg)) @ own_decls cfg g msg"
  by (cases msg) (auto simp: own_decls_def generates_pool_def Let_def)

lemma flatten_unfold: "flatten msg = concat (map flatten (m_Messages msg)) @ [msg]"
  by (cases msg) simp

lemma find_app:
  "find p (xs @ ys) = (case find p xs of None \<Rightarrow> find p ys | Some x \<Rightarrow> Some x)"
  by (induction xs) auto

lemma find_SomeD: "find p xs = Some x \<Longrightarrow> p x \<and> x \<in> set xs"
  by (induction xs) (auto split: if_splits)

lemma lookup_concat:
  "\<forall>x \<in> set xs. lookup_ResetVT (f x) T = map_option B (find p (fl x)) \<Longrightarrow>
     lookup_ResetVT (concat (map f xs)) T = map_option B (find p (concat (map fl xs)))"
  by (induction xs) (auto simp: lookup_ResetVT_append find_app split: option.splits)

lemma lookup_own:
  "lookup_ResetVT (own_decls cfg g msg) T =
     (if generates_pool cfg msg \<and> QualifiedGoIdent g (m_GoIdent msg) = T
      then Some (ResetVT_body cfg g msg) else None)"
  by (simp add: own_decls_def)

lemma lookup_message:
  "lookup_ResetVT (message cfg g msg) T =
     map_option (ResetVT_body cfg g)
       (find (\<lambda>msg. generates_pool cfg msg \<and> QualifiedGoIdent g (m_GoIdent msg) = T) (flatten msg))"
proof (induction msg rule: flatten.induct)
  case (1 goIdent isMapEntry api mempool flds nested)
  let ?msg = "Message goIdent isMapEntry api mempool flds nested"
  let ?p = "\<lambda>msg. generates_pool cfg msg \<and> QualifiedGoIdent g (m_GoIdent msg) = T"
  from 1 have "\<forall>x \<in> set nested. lookup_ResetVT (message cfg g x) T
                 = map_option (ResetVT_body cfg g) (find ?p (flatten x))" by blast
  from lookup_concat [OF this]
  have n: "lookup_ResetVT (concat (map (message cfg g) nested)) T
             = map_option (ResetVT_body cfg g) (find ?p (concat (map flatten nested)))" .
  have "lookup_ResetVT (message cfg g ?msg) T
          = (case lookup_ResetVT (concat (map (message cfg g) nested)) T of
               Some b \<Rightarrow> Some b | None \<Rightarrow> lookup_ResetVT (own_decls cfg g ?msg) T)"
    by (subst message_unfold) (simp add: lookup_ResetVT_append)
  also have "\<dots> = map_option (ResetVT_body cfg g) (find ?p (flatten ?msg))"
    unfolding n lookup_own by (simp add: find_app split: option.splits)
  finally show ?case .
qed

lemma generated_decls_for:
  "generated_for (schema_of cfg g file_Messages) cfg g (generated_decls cfg g file_Messages)"
proof -
  have "lookup_ResetVT (generated_decls cfg g file_Messages) T
          = map_option (ResetVT_body cfg g) (schema_of cfg g file_Messages T)" for T
    unfolding generated_decls_def schema_of_def
    by (rule lookup_concat) (simp add: lookup_message)
  then show ?thesis by (simp add: generated_for_def)
qed

lemma own_in_message:
  "x \<in> set (flatten msg) \<Longrightarrow> set (own_decls cfg g x) \<subseteq> set (message cfg g msg)"
proof (induction msg rule: flatten.induct)
  case (1 goIdent isMapEntry api mempool flds nested)
  let ?msg = "Message goIdent isMapEntry api mempool flds nested"
  from "1.prems" have "x = ?msg \<or> (\<exists>n \<in> set nested. x \<in> set (flatten n))" by auto
  then show ?case
  proof
    assume "x = ?msg"
    then show ?thesis by (subst message_unfold) simp
  next
    assume "\<exists>n \<in> set nested. x \<in> set (flatten n)"
    then obtain n where n: "n \<in> set nested" "x \<in> set (flatten n)" by blast
    from "1.IH" [OF n] have "set (own_decls cfg g x) \<subseteq> set (message cfg g n)" .
    with n(1) show ?thesis by (subst message_unfold) auto
  qed
qed

lemma generated_decls_pool:
  assumes "schema_of cfg g file_Messages T = Some msg"
  shows "has_pool (generated_decls cfg g file_Messages) T"
proof -
  from assms have p: "generates_pool cfg msg" "QualifiedGoIdent g (m_GoIdent msg) = T"
    and mem: "msg \<in> set (concat (map flatten file_Messages))"
    unfolding schema_of_def by (auto dest: find_SomeD)
  from mem obtain top where top: "top \<in> set file_Messages" "msg \<in> set (flatten top)" by auto
  from own_in_message [OF top(2)] top(1)
  have "set (own_decls cfg g msg) \<subseteq> set (generated_decls cfg g file_Messages)"
    by (auto simp: generated_decls_def)
  with p show ?thesis by (auto simp: has_pool_def own_decls_def)
qed

lemma GenerateFile_decls:
  "GenerateFile cfg g file_Messages =
     (concat (map decl_lines (generated_decls cfg g file_Messages)),
      generated_decls cfg g file_Messages \<noteq> [])"
  by (simp add: GenerateFile_def generated_decls_def Let_def)

subsection \<open>The example is well formed\<close>

lemma Sample_generated: "generated_for Sample_schema no_lists (gen_with id) Sample_decls"
proof -
  have "ResetVT_body no_lists (gen_with id) Item_msg = [ResetAll]"
    by (simp add: Let_def ResetVT_body_def Item_msg_def scalar_field_def field_step_def
          in_real_oneof_def save_oneofs_def restore_saved_def restore_oneofs_def)
  then show ?thesis
    by (auto simp: generated_for_def Sample_schema_def Sample_decls_eq split: if_splits)
qed

lemma Sample_has_pool: "has_pool Sample_decls ''Sample''"
  by (simp add: has_pool_def Sample_decls_eq)

lemma Item_well_formed: "well_formed Sample_schema no_lists (gen_with id) (Suc n) (Inst ''Item'' [(''N'', VScalar k)])"
  by (simp add: Sample_schema_def instance_of_def Item_msg_def scalar_field_def holds_def
        in_real_oneof_def get_field_def kind_ok_def)

lemma a_Sample_well_formed: "well_formed Sample_schema no_lists (gen_with id) (Suc (Suc n)) a_Sample"
proof -
  have sp: "ShouldPool no_lists (f_Message Items_field)"
    by (simp add: Items_field_def ShouldPool_def message_ref_def Item_msg_def no_lists_def ident_def)
  have items: "holds (well_formed Sample_schema no_lists (gen_with id) (Suc n)) no_lists (gen_with id)
                 Items_field (get_field a_Sample)"
    unfolding holds_def Let_def using sp Item_well_formed
    by (simp add: Items_field_def get_field_def a_Sample_def an_Item_def elem_ok_def
          del: well_formed.simps)
  have rest: "holds P no_lists (gen_with id) (scalar_field ''Values'' Int64Kind True) (get_field a_Sample)"
    "holds P no_lists (gen_with id) (scalar_field ''Data'' BytesKind False) (get_field a_Sample)"
    "holds P no_lists (gen_with id) (oneof_bytes_field ''Raw'' ''Sample_Raw'' ''Body'') (get_field a_Sample)"
    for P
    by (simp_all add: holds_def Let_def scalar_field_def oneof_bytes_field_def in_real_oneof_def
          Oneof_GoName_def get_field_def a_Sample_def kind_ok_def gen_with_def ident_def)
  have ty: "i_type a_Sample = ''Sample''" by (simp add: a_Sample_def)
  have inst: "instance_of (well_formed Sample_schema no_lists (gen_with id) (Suc n)) no_lists
                (gen_with id) Sample_msg a_Sample"
    unfolding instance_of_def Sample_msg_def using items rest by (simp del: well_formed.simps)
  have "Sample_schema ''Sample'' = Some Sample_msg" by (simp add: Sample_schema_def)
  with inst ty show ?thesis by simp
qed

lemma Items_pooled: "ShouldPool no_lists (f_Message Items_field)"
  by (simp add: Items_field_def ShouldPool_def message_ref_def Item_msg_def no_lists_def ident_def)

lemma Items_not_pooled: "\<not> ShouldPool Item_not_pooled (f_Message Items_field)"
  by (simp add: Items_field_def ShouldPool_def message_ref_def Item_msg_def Item_not_pooled_def)

lemma Items_holds:
  "holds (well_formed Sample_schema no_lists (gen_with id) (Suc n)) no_lists (gen_with id)
     Items_field (get_field a_Sample)"
  unfolding holds_def Let_def using Items_pooled Item_well_formed
  by (simp add: Items_field_def get_field_def a_Sample_def an_Item_def elem_ok_def
        del: well_formed.simps)

lemma Items_holds_not_pooled:
  "holds P Item_not_pooled (gen_with id) Items_field (get_field a_Sample)"
  unfolding holds_def Let_def using Items_not_pooled
  by (simp add: Items_field_def get_field_def a_Sample_def an_Item_def elem_ok_def)

lemma field_Sample_frame: "field Sample_frame = get_field a_Sample"
  by (rule ext) (simp add: field_def get_field_def Sample_frame_def)

lemma Sample_call_ReturnToVTPool:
  "call_ReturnToVTPool Sample_decls 1 ''Sample'' (Some a_Sample) no_pools
     = Inr (Some a_Sample_reset, Put ''Sample'' a_Sample_reset no_pools)"
proof -
  have "lookup_ResetVT Sample_decls ''Sample''
          = Some (ResetVT_body no_lists (gen_with id) Sample_msg)"
    by (simp add: Sample_decls_eq)
  moreover have "FuncReturnToVTPool ''Sample'' \<in> set Sample_decls"
    by (simp add: Sample_decls_eq)
  ultimately show ?thesis
    unfolding call_ReturnToVTPool_def ReturnToVTPool_sem_def
    by (simp only: if_True option.case Sample_run_body sum.case prod.case)
qed

lemma Sample_call_ResetVT:
  "call_ResetVT Sample_decls 1 ''Sample'' (Some a_Sample) no_pools = Inr (Some a_Sample_reset, no_pools)"
proof -
  have "lookup_ResetVT Sample_decls ''Sample''
          = Some (ResetVT_body no_lists (gen_with id) Sample_msg)"
    by (simp add: Sample_decls_eq)
  then show ?thesis
    unfolding call_ResetVT_def ResetVT_sem_def
    by (simp only: option.case Sample_run_body sum.case prod.case)
qed

lemma Sample_Get:
  "call_FromVTPool Sample_decls ''Sample'' new_Sample (Some 0) (Put ''Sample'' a_Sample_reset no_pools)
     = Inr (a_Sample_reset, no_pools)"
proof -
  have "(Put ''Sample'' a_Sample_reset no_pools)(''Sample'' := []) = no_pools"
    by (rule ext) (simp add: Put_def no_pools_def)
  then show ?thesis
    by (simp add: call_FromVTPool_def Sample_decls_eq Get_def Put_def no_pools_def)
qed

lemma schema_of_Sample:
  "schema_of no_lists (gen_with id) [Item_msg, Sample_msg] = Sample_schema"
proof
  fix T
  have g: "generates_pool no_lists Item_msg" "generates_pool no_lists Sample_msg"
    by (simp_all add: generates_pool_def Item_msg_def Sample_msg_def no_lists_def ShouldPool_def
          message_ref_def IsOpaque_def)
  have f: "flatten Item_msg = [Item_msg]" "flatten Sample_msg = [Sample_msg]"
    by (simp_all add: Item_msg_def Sample_msg_def)
  have n: "QualifiedGoIdent (gen_with id) (m_GoIdent Item_msg) = ''Item''"
    "QualifiedGoIdent (gen_with id) (m_GoIdent Sample_msg) = ''Sample''"
    by (simp_all add: gen_with_def Item_msg_def Sample_msg_def ident_def)
  show "schema_of no_lists (gen_with id) [Item_msg, Sample_msg] T = Sample_schema T"
    by (auto simp: schema_of_def Sample_schema_def f g n)
qed

lemma Sample_decls_generated:
  "generated_decls no_lists (gen_with id) [Item_msg, Sample_msg] = Sample_decls"
  by (simp add: generated_decls_def Sample_decls_def)

section \<open>Pooling: what a reused instance looks like\<close>

text \<open>
  C1. Take the declarations the generator prints for a file, an instance \<open>m\<close> that is
  well formed for the file's schema to the depth \<open>n\<close>, the message \<open>msg\<close> its type
  names, and a field of \<open>msg\<close> that is repeated or is a bytes field outside a real
  oneof. Then \<open>m.ReturnToVTPool()\<close> returns. It leaves an instance \<open>m'\<close> that is
  the last one in the pool of its type, on top of what the pool held (\<open>q\<close>), so the
  \<open>FromVTPool\<close> that takes that slot returns \<open>m'\<close>. In \<open>m'\<close> the field is a
  slice of length 0 whose capacity is the capacity the field had in \<open>m\<close>.

  The fuel bounds the depth of the calls from one \<open>ResetVT\<close> into another; for an
  instance that is well formed to the depth \<open>n\<close>, every fuel from \<open>n - 1\<close> on is
  enough. The two loops over the map of oneof groups each visit every key once, in
  whatever order. Well formed includes that a repeated field of a message type without
  a pool holds no \<open>nil\<close> element: on such an element the printed \<open>mm.Reset()\<close>
  dereferences \<open>nil\<close>.
\<close>

theorem reused_instance_keeps_capacity:
  assumes o1: "is_range_order (range_save g)" and o2: "is_range_order (range_restore g)"
    and sc: "schema_of cfg g file_Messages (i_type m) = Some msg"
    and wf: "well_formed (schema_of cfg g file_Messages) cfg g n m" and fu: "n \<le> Suc fuel"
    and fld: "fld \<in> set (m_Fields msg)" and kh: "keeps_handle fld"
  shows "\<exists>m' q. call_ReturnToVTPool (generated_decls cfg g file_Messages) fuel (i_type m) (Some m) p
                = Inr (Some m', Put (i_type m) m' q)
            \<and> call_FromVTPool (generated_decls cfg g file_Messages) (i_type m) new
                  (Some (length (q (i_type m)))) (Put (i_type m) m' q)
                = Inr (m', q)
            \<and> handle_len (get_field m' (f_GoName fld)) = Some 0
            \<and> handle_cap (get_field m' (f_GoName fld)) = handle_cap (get_field m (f_GoName fld))
            \<and> handle_cap (get_field m (f_GoName fld)) \<noteq> None"
  by (rule call_ReturnToVTPool_keeps_handles
        [OF generated_decls_for generated_decls_pool [OF sc] o1 o2 sc refl
            well_formed_mono [OF wf fu] fld kh])

text \<open>
  The theorem at the example: \<open>ReturnToVTPool\<close> on the instance whose \<open>Values\<close>
  hold 5 of 8 allocated slots returns and puts the reset instance into the empty pool;
  \<open>SampleFromVTPool\<close> takes it out again; its \<open>Values\<close> have length 0 and
  capacity 8.
\<close>

theorem reused_instance_keeps_capacity_witness:
  "call_ReturnToVTPool Sample_decls 1 ''Sample'' (Some a_Sample) no_pools
     = Inr (Some a_Sample_reset, Put ''Sample'' a_Sample_reset no_pools)
   \<and> call_FromVTPool Sample_decls ''Sample'' new_Sample (Some 0) (Put ''Sample'' a_Sample_reset no_pools)
     = Inr (a_Sample_reset, no_pools)
   \<and> handle_len (get_field a_Sample ''Values'') = Some 5
   \<and> handle_cap (get_field a_Sample ''Values'') = Some 8
   \<and> handle_len (get_field a_Sample_reset ''Values'') = Some 0
   \<and> handle_cap (get_field a_Sample_reset ''Values'') = Some 8"
proof -
  have mem: "scalar_field ''Values'' Int64Kind True \<in> set (m_Fields Sample_msg)"
    by (simp add: Sample_msg_def)
  have kh: "keeps_handle (scalar_field ''Values'' Int64Kind True)"
    by (simp add: keeps_handle_def scalar_field_def)
  have o: "is_range_order (range_save (gen_with id))" "is_range_order (range_restore (gen_with id))"
    by (simp_all add: gen_with_def range_order_id)
  have ty: "i_type a_Sample = ''Sample''" by (simp add: a_Sample_def)
  have sc: "schema_of no_lists (gen_with id) [Item_msg, Sample_msg] (i_type a_Sample) = Some Sample_msg"
    by (simp add: schema_of_Sample Sample_schema_def ty)
  have wf: "well_formed (schema_of no_lists (gen_with id) [Item_msg, Sample_msg]) no_lists
              (gen_with id) (Suc (Suc 0)) a_Sample"
    unfolding schema_of_Sample by (rule a_Sample_well_formed)
  from reused_instance_keeps_capacity [OF o sc wf le_refl mem kh, of no_pools new_Sample,
         unfolded Sample_decls_generated ty]
  obtain m' q where
    c: "call_ReturnToVTPool Sample_decls (Suc 0) ''Sample'' (Some a_Sample) no_pools
          = Inr (Some m', Put ''Sample'' m' q)"
    and h: "handle_len (get_field m' ''Values'') = Some 0"
      "handle_cap (get_field m' ''Values'') = handle_cap (get_field a_Sample ''Values'')"
    by (auto simp: scalar_field_def)
  from c Sample_call_ReturnToVTPool have "m' = a_Sample_reset" by simp
  with h Sample_call_ReturnToVTPool Sample_Get show ?thesis
    by (simp add: get_field_def a_Sample_def)
qed

section \<open>Pooling: the elements of a repeated message field\<close>

text \<open>
  C2, as the code has it. For a repeated field of message or group kind the generator
  prints the loop \<open>for _, mm := range m.F\<close> with \<open>mm.ResetVT()\<close> when the element
  type is pool-eligible and \<open>mm.Reset()\<close> otherwise, and right after it the
  truncation \<open>fN := m.F[:0]\<close>. On a struct that holds a value of the field's type,
  the list \<open>b\<close> with length \<open>n\<close>, the two statements run, and they leave the list
  \<open>b'\<close> in the field, still of length \<open>n\<close>, and the same \<open>b'\<close> with length 0 in
  the variable. \<open>b'\<close> is as long as \<open>b\<close> and agrees with it from \<open>n\<close> on. Below
  \<open>n\<close> every element was reset in place, in order: with a pool-eligible type a
  \<open>nil\<close> element stays, and any other becomes what its \<open>ResetVT\<close> makes of it;
  otherwise the element becomes what \<open>Reset\<close> makes of it. No element is put into a
  pool: \<open>ps\<close> are the pools before each element, and they change from one element to
  the next only by what the element's own \<open>ResetVT\<close> returns.
\<close>

theorem repeated_message_elements_reset_in_place:
  assumes l: "f_IsList fld" and k: "f_Kind fld = MessageKind \<or> f_Kind fld = GroupKind"
    and step: "field_step cfg g fld saved ob = (out, saved', ob')"
    and rw: "resets_within P resetVT"
    and h: "holds P cfg g fld (field st)"
    and f: "field st (f_GoName fld) = Some (VList (Slice b n))"
  shows "out = [RangeReset (f_GoName fld) (ShouldPool cfg (f_Message fld)),
                SaveTrunc (length saved) (f_GoName fld)]
       \<and> (\<exists>st' b' ps.
            exec_list resetVT out st = Inr st'
          \<and> field st' (f_GoName fld) = Some (VList (Slice b' n))
          \<and> f_vars st' (length saved) = Some (VList (Slice b' 0))
          \<and> length b' = length b \<and> drop n b' = drop n b
          \<and> length ps = Suc n \<and> ps ! 0 = pools st \<and> ps ! n = pools st'
          \<and> (\<forall>i < n.
                (ShouldPool cfg (f_Message fld) \<and> b ! i = VMessage None \<and> b' ! i = VMessage None
                   \<and> ps ! Suc i = ps ! i)
              \<or> (\<exists>e. b ! i = VMessage (Some e)
                    \<and> (if ShouldPool cfg (f_Message fld)
                       then \<exists>e'. resetVT e (ps ! i) = Inr (e', ps ! Suc i)
                                 \<and> b' ! i = VMessage (Some e')
                       else b' ! i = VMessage (Some (Reset_sem e)) \<and> ps ! Suc i = ps ! i))))"
proof -
  let ?F = "f_GoName fld"
  let ?pooled = "ShouldPool cfg (f_Message fld)"
  from l k step have out: "out = [RangeReset ?F ?pooled, SaveTrunc (length saved) ?F]"
    by (auto simp: field_step_def Let_def)
  from h l k f have nb: "n \<le> length b" and ok: "list_all (elem_ok P ?pooled) (take n b)"
    by (auto simp: holds_def Let_def)
  from reset_elems_progress [OF rw ok] obtain es q where
    r: "reset_elems ?pooled resetVT (take n b) (pools st) = Inr (es, q)" by blast
  from reset_elems_length [OF r] nb have le: "length es = n" by simp
  define b' where "b' = es @ drop n b"
  define st' where "st' = (set_field ?F (VList (Slice b' n)) (st\<lparr>pools := q\<rparr>))
      \<lparr>f_vars := (f_vars st)(length saved \<mapsto> VList (Slice b' 0))\<rparr>"
  have ex: "exec_list resetVT out st = Inr st'"
    unfolding out using f r by (simp add: st'_def b'_def)
  from reset_elems_trace [OF r] nb obtain ps where
    ps: "length ps = Suc n" "ps ! 0 = pools st" "ps ! n = q"
    "\<forall>i < n. reset_elem ?pooled resetVT (take n b ! i) (ps ! i) = Inr (es ! i, ps ! Suc i)"
    by auto
  have el: "(?pooled \<and> b ! i = VMessage None \<and> b' ! i = VMessage None \<and> ps ! Suc i = ps ! i)
              \<or> (\<exists>e. b ! i = VMessage (Some e)
                    \<and> (if ?pooled
                       then \<exists>e'. resetVT e (ps ! i) = Inr (e', ps ! Suc i)
                                 \<and> b' ! i = VMessage (Some e')
                       else b' ! i = VMessage (Some (Reset_sem e)) \<and> ps ! Suc i = ps ! i))"
    if "i < n" for i
  proof -
    from that ps(4) have "reset_elem ?pooled resetVT (take n b ! i) (ps ! i) = Inr (es ! i, ps ! Suc i)"
      by blast
    moreover have "take n b ! i = b ! i" using that by simp
    moreover have "b' ! i = es ! i" using that le by (simp add: b'_def nth_append)
    ultimately show ?thesis using reset_elem_cases [of ?pooled resetVT "b ! i" "ps ! i" "b' ! i" "ps ! Suc i"]
      by simp
  qed
  have "field st' ?F = Some (VList (Slice b' n))" by (simp add: st'_def)
  moreover have "f_vars st' (length saved) = Some (VList (Slice b' 0))" by (simp add: st'_def)
  moreover have "length b' = length b" using le nb by (simp add: b'_def)
  moreover have "drop n b' = drop n b" using le by (simp add: b'_def)
  moreover have "ps ! n = pools st'" using ps(3) by (simp add: st'_def)
  ultimately show ?thesis using out ex ps(1,2) el by blast
qed

text \<open>
  The theorem at the example's field \<open>Items\<close>, which holds 2 of 3 slots, once with
  \<open>Item\<close> pool-eligible and once with \<open>Item\<close> excluded from pooling: both runs
  leave the first two elements reset and the third as it was. The second run is given a
  \<open>ResetVT\<close> that cannot return, and does not call it.
\<close>

theorem repeated_message_elements_reset_in_place_witness:
  "field_step no_lists (gen_with id) Items_field [] []
     = ([RangeReset ''Items'' True, SaveTrunc 0 ''Items''], [Items_field], [])
   \<and> exec_list (ResetVT_fuel Sample_decls 1) [RangeReset ''Items'' True, SaveTrunc 0 ''Items'']
       Sample_frame = Inr Sample_frame_after
   \<and> field_step Item_not_pooled (gen_with id) Items_field [] []
     = ([RangeReset ''Items'' False, SaveTrunc 0 ''Items''], [Items_field], [])
   \<and> exec_list (ResetVT_fuel Sample_decls 0) [RangeReset ''Items'' False, SaveTrunc 0 ''Items'']
       Sample_frame = Inr Sample_frame_after
   \<and> field Sample_frame ''Items'' = Some (VList (Slice [an_Item 1, an_Item 2, an_Item 3] 2))
   \<and> field Sample_frame_after ''Items'' = Some (VList (Slice [an_Item 0, an_Item 0, an_Item 3] 2))"
proof -
  have l: "f_IsList Items_field" by (simp add: Items_field_def)
  have k: "f_Kind Items_field = MessageKind \<or> f_Kind Items_field = GroupKind"
    by (simp add: Items_field_def)
  have o: "is_range_order (range_save (gen_with id))" "is_range_order (range_restore (gen_with id))"
    by (simp_all add: gen_with_def range_order_id)
  have s1: "field_step no_lists (gen_with id) Items_field [] []
     = ([RangeReset ''Items'' True, SaveTrunc 0 ''Items''], [Items_field], [])"
    using Items_pooled by (simp add: field_step_def Let_def Items_field_def)
  have s2: "field_step Item_not_pooled (gen_with id) Items_field [] []
     = ([RangeReset ''Items'' False, SaveTrunc 0 ''Items''], [Items_field], [])"
    using Items_not_pooled by (simp add: field_step_def Let_def Items_field_def)
  have f: "field Sample_frame (f_GoName Items_field)
             = Some (VList (Slice [an_Item 1, an_Item 2, an_Item 3] 2))"
    by (simp add: field_def Sample_frame_def a_Sample_def Items_field_def)
  have r1: "resets_within (well_formed Sample_schema no_lists (gen_with id) 1)
              (ResetVT_fuel Sample_decls 1)"
    by (rule ResetVT_fuel_resets_within [OF Sample_generated o])
  have r2: "resets_within (\<lambda>i. False) (ResetVT_fuel Sample_decls 0)"
    by (simp add: resets_within_def)
  have h1: "holds (well_formed Sample_schema no_lists (gen_with id) 1) no_lists (gen_with id)
              Items_field (field Sample_frame)"
    using Items_holds [of 0] by (simp add: field_Sample_frame)
  have h2: "holds (\<lambda>i. False) Item_not_pooled (gen_with id) Items_field (field Sample_frame)"
    using Items_holds_not_pooled by (simp add: field_Sample_frame)
  have e1: "exec_list (ResetVT_fuel Sample_decls 1) [RangeReset ''Items'' True, SaveTrunc 0 ''Items'']
       Sample_frame = Inr Sample_frame_after"
    by (simp add: Sample_frame_def Sample_frame_after_def field_def a_Sample_def set_field_def
          reset_elem_def an_Item_def Sample_decls_eq run_body_def zero_fields_def)
  have e2: "exec_list (ResetVT_fuel Sample_decls 0) [RangeReset ''Items'' False, SaveTrunc 0 ''Items'']
       Sample_frame = Inr Sample_frame_after"
    by (simp add: Sample_frame_def Sample_frame_after_def field_def a_Sample_def set_field_def
          reset_elem_def an_Item_def Reset_sem_def zero_fields_def)
  have f1: "field Sample_frame ''Items'' = Some (VList (Slice [an_Item 1, an_Item 2, an_Item 3] 2))"
    by (simp add: field_def Sample_frame_def a_Sample_def)
  have f2: "field Sample_frame_after ''Items'' = Some (VList (Slice [an_Item 0, an_Item 0, an_Item 3] 2))"
    by (simp add: field_def Sample_frame_after_def)
  show ?thesis
    using repeated_message_elements_reset_in_place [OF l k s1 r1 h1 f]
      repeated_message_elements_reset_in_place [OF l k s2 r2 h2 f]
      s1 s2 e1 e2 f1 f2
    by blast
qed

text \<open>
  C2 as the claim states it fails: after \<open>ReturnToVTPool\<close> on the example, whose
  \<open>Items\<close> held two elements of the pool-eligible type \<open>Item\<close>, the pool of
  \<open>Item\<close> is empty. The two elements were reset and are still in the backing array
  of the truncated list.
\<close>

theorem repeated_elements_are_not_pooled:
  "call_ReturnToVTPool Sample_decls 1 ''Sample'' (Some a_Sample) no_pools
     = Inr (Some a_Sample_reset, Put ''Sample'' a_Sample_reset no_pools)
   \<and> Put ''Sample'' a_Sample_reset no_pools ''Item'' = []
   \<and> get_field a_Sample ''Items'' = Some (VList (Slice [an_Item 1, an_Item 2, an_Item 3] 2))
   \<and> get_field a_Sample_reset ''Items'' = Some (VList (Slice [an_Item 0, an_Item 0, an_Item 3] 0))"
proof -
  have "lookup_ResetVT Sample_decls ''Sample''
          = Some (ResetVT_body no_lists (gen_with id) Sample_msg)"
    by (simp add: Sample_decls_eq)
  moreover have "FuncReturnToVTPool ''Sample'' \<in> set Sample_decls"
    by (simp add: Sample_decls_eq)
  ultimately have "call_ReturnToVTPool Sample_decls 1 ''Sample'' (Some a_Sample) no_pools
     = Inr (Some a_Sample_reset, Put ''Sample'' a_Sample_reset no_pools)"
    unfolding call_ReturnToVTPool_def ReturnToVTPool_sem_def
    by (simp only: if_True option.case Sample_run_body sum.case prod.case)
  then show ?thesis
    by (simp add: Put_def no_pools_def get_field_def a_Sample_def a_Sample_reset_def)
qed

section \<open>Pooling: a bytes field inside a oneof\<close>

text \<open>
  C3. Take the declarations the generator prints for a file, an instance \<open>m\<close> that is
  well formed for the file's schema to the depth \<open>n\<close>, the message \<open>msg\<close> its type
  names, and a bytes field in a real oneof of \<open>msg\<close>, and let the oneof slot of \<open>m\<close>
  hold the wrapper of that field, at the address \<open>a\<close>, with the bytes \<open>b\<close>. Then
  \<open>m.ResetVT()\<close> returns, with every fuel from \<open>n - 1\<close> on, and the slot then holds
  the wrapper at the same address \<open>a\<close> with the bytes \<open>b[:0]\<close>: length 0, the
  capacity of \<open>b\<close>. The two loops over the map of oneof groups each visit every key
  once, in whatever order.
\<close>

theorem oneof_bytes_wrapper_is_reused:
  assumes o1: "is_range_order (range_save g)" and o2: "is_range_order (range_restore g)"
    and sc: "schema_of cfg g file_Messages (i_type m) = Some msg"
    and wf: "well_formed (schema_of cfg g file_Messages) cfg g n m" and fu: "n \<le> Suc fuel"
    and fld: "fld \<in> set (m_Fields msg)" and kw: "keeps_wrapper fld"
    and slot: "get_field m (Oneof_GoName fld)
           = Some (VOneof (Some (Wrapper a (QualifiedGoIdent g (f_GoIdent fld)) (VBytes b))))"
  shows "\<exists>m' p'. call_ResetVT (generated_decls cfg g file_Messages) fuel (i_type m) (Some m) p
                = Inr (Some m', p')
       \<and> get_field m' (Oneof_GoName fld)
           = Some (VOneof (Some (Wrapper a (QualifiedGoIdent g (f_GoIdent fld)) (VBytes (reslice0 b)))))
       \<and> len (reslice0 b) = 0 \<and> cap (reslice0 b) = cap b"
  by (rule call_ResetVT_keeps_wrapper
        [OF generated_decls_for o1 o2 sc refl well_formed_mono [OF wf fu] fld kw slot])

text \<open>
  The theorem at the example: \<open>ResetVT\<close> returns; the wrapper at address 100 holds 2
  of 2 bytes before the reset and 0 of 2 after it.
\<close>

theorem oneof_bytes_wrapper_is_reused_witness:
  "call_ResetVT Sample_decls 1 ''Sample'' (Some a_Sample) no_pools = Inr (Some a_Sample_reset, no_pools)
   \<and> get_field a_Sample ''Body''
     = Some (VOneof (Some (Wrapper 100 ''Sample_Raw'' (VBytes (Slice [7, 8] 2)))))
   \<and> get_field a_Sample_reset ''Body''
     = Some (VOneof (Some (Wrapper 100 ''Sample_Raw'' (VBytes (Slice [7, 8] 0)))))"
proof -
  let ?fld = "oneof_bytes_field ''Raw'' ''Sample_Raw'' ''Body''"
  have mem: "?fld \<in> set (m_Fields Sample_msg)"
    by (simp add: Sample_msg_def)
  have kw: "keeps_wrapper ?fld"
    by (simp add: keeps_wrapper_def oneof_bytes_field_def in_real_oneof_def)
  have o: "is_range_order (range_save (gen_with id))" "is_range_order (range_restore (gen_with id))"
    by (simp_all add: gen_with_def range_order_id)
  have ty: "i_type a_Sample = ''Sample''" by (simp add: a_Sample_def)
  have sc: "schema_of no_lists (gen_with id) [Item_msg, Sample_msg] (i_type a_Sample) = Some Sample_msg"
    by (simp add: schema_of_Sample Sample_schema_def ty)
  have wf: "well_formed (schema_of no_lists (gen_with id) [Item_msg, Sample_msg]) no_lists
              (gen_with id) (Suc (Suc 0)) a_Sample"
    unfolding schema_of_Sample by (rule a_Sample_well_formed)
  have slot: "get_field a_Sample (Oneof_GoName ?fld)
      = Some (VOneof (Some (Wrapper 100 (QualifiedGoIdent (gen_with id) (f_GoIdent ?fld))
           (VBytes (Slice [7, 8] 2)))))"
    by (simp add: get_field_def a_Sample_def Oneof_GoName_def oneof_bytes_field_def gen_with_def
          ident_def)
  from oneof_bytes_wrapper_is_reused [OF o sc wf le_refl mem kw slot, of no_pools,
         unfolded Sample_decls_generated ty]
  obtain m' p' where
    c: "call_ResetVT Sample_decls (Suc 0) ''Sample'' (Some a_Sample) no_pools = Inr (Some m', p')"
    and h: "get_field m' ''Body''
              = Some (VOneof (Some (Wrapper 100 ''Sample_Raw'' (VBytes (Slice [7, 8] 0)))))"
    by (auto simp: Oneof_GoName_def oneof_bytes_field_def gen_with_def ident_def)
  from c Sample_call_ResetVT have "m' = a_Sample_reset" by simp
  with h Sample_call_ResetVT show ?thesis
    by (simp add: get_field_def a_Sample_def)
qed

section \<open>Pooling: a nil receiver\<close>

text \<open>
  C9. For a message the generator prints a pool for, the generated \<open>ResetVT\<close> and
  \<open>ReturnToVTPool\<close> called on a \<open>nil\<close> pointer return at once: the receiver
  stays \<open>nil\<close> and the pools are what they were, so nothing was reset and nothing
  was put into a pool.
\<close>

theorem nil_receiver_is_left_alone:
  assumes "generates_pool cfg msg"
  shows "call_ResetVT (message cfg g msg) fuel (QualifiedGoIdent g (m_GoIdent msg)) None p
           = Inr (None, p)
       \<and> call_ReturnToVTPool (message cfg g msg) fuel (QualifiedGoIdent g (m_GoIdent msg)) None p
           = Inr (None, p)"
proof -
  let ?T = "QualifiedGoIdent g (m_GoIdent msg)"
  from message_own_decls [OF assms] obtain pre where
    d: "message cfg g msg = pre @ [PoolVar ?T ''sync.Pool'', FuncResetVT ?T (ResetVT_body cfg g msg),
                                   FuncReturnToVTPool ?T, FuncFromVTPool ?T]"
    by blast
  have "\<exists>body. lookup_ResetVT (message cfg g msg) ?T = Some body"
    unfolding d by (simp add: lookup_ResetVT_append split: option.splits)
  then obtain body where b: "lookup_ResetVT (message cfg g msg) ?T = Some body" by blast
  have r: "FuncReturnToVTPool ?T \<in> set (message cfg g msg)"
    unfolding d by simp
  show ?thesis
    by (simp add: call_ResetVT_def call_ReturnToVTPool_def b r ResetVT_sem_def
          ReturnToVTPool_sem_def)
qed

text \<open>
  The theorem at the example message.
\<close>

theorem nil_receiver_is_left_alone_witness:
  "call_ResetVT Sample_decls 0 ''Sample'' None (Put ''Sample'' a_Sample_reset no_pools)
     = Inr (None, Put ''Sample'' a_Sample_reset no_pools)
   \<and> call_ReturnToVTPool (message no_lists (gen_with id) Sample_msg) 0 ''Sample'' None no_pools
     = Inr (None, no_pools)"
proof -
  have gp: "generates_pool no_lists Sample_msg"
    by (simp add: generates_pool_def Sample_msg_def no_lists_def ShouldPool_def message_ref_def
          IsOpaque_def)
  have q: "QualifiedGoIdent (gen_with id) (m_GoIdent Sample_msg) = ''Sample''"
    by (simp add: gen_with_def Sample_msg_def ident_def)
  show ?thesis
    using nil_receiver_is_left_alone [OF gp, of "gen_with id" 0 no_pools]
    by (simp add: q call_ResetVT_def Sample_decls_eq ResetVT_sem_def)
qed

section \<open>The order of the generated text\<close>

text \<open>
  C6. The generator groups the oneof bytes fields in a Go map and ranges over it, and
  Go leaves the order of that loop open. For a message with two oneofs that each have a
  bytes member, a run that visits the groups in one order and a run that visits them
  in the other print different text, from the same schema and the same configuration.
\<close>

theorem map_range_order_changes_output:
  "fst (GenerateFile no_lists (gen_with id) [TwoOneofs_msg])
     \<noteq> fst (GenerateFile no_lists (gen_with rev) [TwoOneofs_msg])"
  by (simp add: GenerateFile_def Let_def TwoOneofs_msg_def oneof_bytes_field_def ident_def
        no_lists_def gen_with_def ShouldPool_def message_ref_def IsOpaque_def ResetVT_body_def
        field_step_def in_real_oneof_def Oneof_GoName_def save_oneofs_def save_group_def
        restore_saved_def restore_oneofs_def group_keys_def oneofGroups_def add_to_group_def)

section \<open>The gRPC codec rejects values without the vtprotobuf methods\<close>

text \<open>
  C10. A value that lacks \<open>MarshalVT\<close> or \<open>UnmarshalVT\<close> fails the type assertion
  \<open>v.(vtprotoMessage)\<close>. \<open>Marshal\<close> then returns \<open>nil\<close> bytes and an error, and
  \<open>Unmarshal\<close> returns an error and leaves the target as it was, whatever reset
  methods the value has. Both return: the assertion is in its \<open>ok\<close> form, and nothing
  else on this path can panic.
\<close>

theorem grpc_codec_rejects_missing_helpers:
  fixes v :: "'s iface"
  assumes "MarshalVT v = None \<or> UnmarshalVT v = None"
  shows "grpc_Marshal v s =
           (None, Some (Errorf (''failed to marshal, message is '' @ type_name v
                                  @ '' (missing vtprotobuf helpers)'')))
         \<and> grpc_Unmarshal data v s =
           (Some (Errorf (''failed to unmarshal, message is '' @ type_name v
                            @ '' (missing vtprotobuf helpers)'')), s)"
proof -
  from assms have "\<not> vtprotoMessage v"
    by (auto simp: vtprotoMessage_def)
  then show ?thesis
    by (simp add: grpc_Marshal_def grpc_Unmarshal_def)
qed

text \<open>
  The theorem at a value that has \<open>MarshalVT\<close> and \<open>Reset\<close> but no \<open>UnmarshalVT\<close>:
  the target, here the number 7, is not reset.
\<close>

theorem grpc_codec_rejects_missing_helpers_witness:
  "grpc_Marshal
     \<lparr>type_name = ''*pb.Half'', MarshalVT = Some (\<lambda>s. (Some [], None)), UnmarshalVT = None,
      ResetVT = None, Reset = Some (\<lambda>s. 0)\<rparr> (7::nat)
     = (None, Some (Errorf ''failed to marshal, message is *pb.Half (missing vtprotobuf helpers)''))
   \<and> grpc_Unmarshal [1, 2]
     \<lparr>type_name = ''*pb.Half'', MarshalVT = Some (\<lambda>s. (Some [], None)), UnmarshalVT = None,
      ResetVT = None, Reset = Some (\<lambda>s. 0)\<rparr> (7::nat)
     = (Some (Errorf ''failed to unmarshal, message is *pb.Half (missing vtprotobuf helpers)''), 7)"
  using grpc_codec_rejects_missing_helpers
    [of "\<lparr>type_name = ''*pb.Half'', MarshalVT = Some (\<lambda>s. (Some [], None)), UnmarshalVT = None,
          ResetVT = None, Reset = Some (\<lambda>s. 0)\<rparr>" "7::nat" "[1, 2]"]
  by simp

section \<open>Text validation\<close>

text \<open>
  C5. For the validated string field number 14, the bytes 114, 4, FF, FE, FD, FC fail to
  decode with \<open>ErrInvalidUTF8\<close>. The same tag followed by the length and the bytes of
  any ASCII text of fewer than 128 characters decodes, and the field then points to
  that text. \<open>ErrInvalidUTF8\<close> is none of the errors for malformed input.
\<close>

theorem strict_string_rejects_invalid_utf8:
  assumes "\<forall>c \<in> set s. of_char c < (128::nat)" and "length s < 128"
  shows "UnmarshalVT_sem [OptionalString] [114, 4, 0xFF, 0xFE, 0xFD, 0xFC] (fresh [OptionalString])
           = (Some ErrInvalidUTF8, fresh [OptionalString])
       \<and> UnmarshalVT_sem [OptionalString] ([114, of_nat (length s)] @ bytes_of_string s)
             (fresh [OptionalString])
           = (None, [(''OptionalString'', VPointer (Some (VString s)))])
       \<and> ErrInvalidUTF8 \<notin> {ErrInvalidLength, ErrIntOverflow, ErrUnexpectedEndOfGroup,
                              ErrUnexpectedEOF}"
proof -
  let ?m = "fresh [OptionalString]"
  have bad: "decode_one [OptionalString] [114, 4, 0xFF, 0xFE, 0xFD, 0xFC] ?m = Inl ErrInvalidUTF8"
    by (simp add: decode_one_def decode_varint_single OptionalString_def decode_value_def
          decode_length_delimited_def split_at_def ValidateUTF8_def utf8_lead_def)
  have 1: "UnmarshalVT_sem [OptionalString] [114, 4, 0xFF, 0xFE, 0xFD, 0xFC] ?m
             = (Some ErrInvalidUTF8, ?m)"
    by (rule UnmarshalVT_sem_fail [OF _ bad]) simp
  have n: "unat (of_nat (length s) :: byte) = length s"
    using assms(2) by (simp add: unat_byte_of_nat)
  have len: "decode_length_delimited (of_nat (length s) # bytes_of_string s)
               = Inr (bytes_of_string s, [])"
    using assms(2) n
    by (simp add: decode_length_delimited_def decode_varint_single split_at_def
          bytes_of_string_def)
  have good: "decode_one [OptionalString] ([114, of_nat (length s)] @ bytes_of_string s) ?m
                = Inr ([], [(''OptionalString'', VPointer (Some (VString s)))])"
    using len ValidateUTF8_ascii [OF assms(1)]
    by (simp add: decode_one_def decode_varint_single OptionalString_def decode_value_def
          string_of_bytes_of_string assign_def fresh_def zero_of_def)
  have 2: "UnmarshalVT_sem [OptionalString] ([114, of_nat (length s)] @ bytes_of_string s) ?m
             = (None, [(''OptionalString'', VPointer (Some (VString s)))])"
    using UnmarshalVT_sem_step [OF _ good] by (simp add: UnmarshalVT_sem_Nil)
  from 1 2 show ?thesis by simp
qed

text \<open>
  The theorem at the text \<open>text\<close>: the same tag and the same length 4 as the rejected
  input.
\<close>

theorem strict_string_rejects_invalid_utf8_witness:
  "UnmarshalVT_sem [OptionalString] [114, 4, 0xFF, 0xFE, 0xFD, 0xFC] (fresh [OptionalString])
     = (Some ErrInvalidUTF8, [(''OptionalString'', VPointer None)])
   \<and> UnmarshalVT_sem [OptionalString] [114, 4, 0x74, 0x65, 0x78, 0x74] (fresh [OptionalString])
     = (None, [(''OptionalString'', VPointer (Some (VString ''text'')))])"
  using strict_string_rejects_invalid_utf8 [of "''text''"]
  by (simp add: bytes_of_string_def fresh_def zero_of_def OptionalString_def)

section \<open>Absent and empty bytes\<close>

text \<open>
  With implicit presence a bytes field is on the wire only when it holds at least one
  byte, so an instance whose field \<open>F\<close> is \<open>nil\<close> and the same instance with an
  empty, allocated \<open>F\<close> encode to the same bytes.
\<close>

lemma nil_and_empty_bytes_encode_alike:
  assumes "\<forall>fp \<in> set plan. fp_name fp = F \<longrightarrow> fp_presence fp = Implicit"
  shows "MarshalVT_sem plan (AList.update F (VBytes NilSlice) m)
           = MarshalVT_sem plan (AList.update F (VBytes (Slice b 0)) m)"
proof -
  have "encode_field fp (AList.update F (VBytes NilSlice) m)
          = encode_field fp (AList.update F (VBytes (Slice b 0)) m)" if "fp \<in> set plan" for fp
  proof (cases "fp_name fp = F")
    case True
    with assms that have "fp_presence fp = Implicit" by blast
    with True show ?thesis by (simp add: encode_field_def update_conv')
  next
    case False
    then show ?thesis by (simp add: encode_field_update_other)
  qed
  then show ?thesis
    by (simp add: MarshalVT_sem_concat cong: map_cong)
qed

section \<open>Presence and the zero value\<close>

text \<open>
  C8. Take a message whose fields are singular scalars, strings and bytes, with unique
  names and numbers, an instance \<open>m\<close> of it whose fields hold values of their kinds,
  and any one field \<open>fp\<close> of the message, with the fields \<open>before\<close> and \<open>after\<close>
  it. Decoding what \<open>m\<close> encodes to into a new instance succeeds; let \<open>m'\<close> be the
  result. A new instance holds the zero of \<open>fp\<close>: the absent pointer with explicit
  presence.

  With implicit presence, when \<open>fp\<close> holds its zero value, the encoding is that of the
  fields before followed by that of the fields after, with nothing of \<open>fp\<close> in
  between, and \<open>m'\<close> holds the zero value, as a new instance does.

  With explicit presence, when \<open>fp\<close> points to a value \<open>x\<close>, whatever it is, zero
  included, the encoding has the tag of \<open>fp\<close> and \<open>x\<close> between the fields before
  and the fields after, and \<open>m'\<close> points to \<open>x\<close>, which a new instance does not.
  The same holds for a bytes field that is not \<open>nil\<close>, down to the empty slice.
\<close>

theorem presence_decides_zero_on_the_wire:
  assumes vp: "valid_plan plan" and vi: "valid_instance plan m"
    and pl: "plan = before @ fp # after"
  shows "\<exists>m'. UnmarshalVT_sem plan (MarshalVT_sem plan m) (fresh plan) = (None, m')
       \<and> map_of (fresh plan) (fp_name fp) = Some (zero_of fp)
       \<and> (fp_presence fp = Implicit \<and> map_of m (fp_name fp) = Some (zero_of fp) \<longrightarrow>
            MarshalVT_sem plan m = MarshalVT_sem before m @ MarshalVT_sem after m
          \<and> map_of m' (fp_name fp) = Some (zero_of fp))
       \<and> (\<forall>x. fp_presence fp = Explicit \<and> map_of m (fp_name fp) = Some (VPointer (Some x)) \<longrightarrow>
            MarshalVT_sem plan m
              = MarshalVT_sem before m @ tag_bytes fp @ payload_bytes (fp_kind fp) x
                  @ MarshalVT_sem after m
          \<and> tag_bytes fp \<noteq> []
          \<and> map_of m' (fp_name fp) = Some (VPointer (Some x))
          \<and> VPointer (Some x) \<noteq> zero_of fp)
       \<and> (\<forall>b n. fp_presence fp = Explicit \<and> map_of m (fp_name fp) = Some (VBytes (Slice b n)) \<longrightarrow>
            MarshalVT_sem plan m
              = MarshalVT_sem before m @ tag_bytes fp @ encode_varint n @ take n b
                  @ MarshalVT_sem after m
          \<and> map_of m' (fp_name fp) = Some (VBytes (Slice (take n b) n))
          \<and> VBytes (Slice (take n b) n) \<noteq> zero_of fp)"
proof -
  let ?m' = "foldl (store m) (fresh plan) plan"
  let ?F = "fp_name fp"
  from pl have mem: "fp \<in> set plan" by simp
  from vp have dn: "distinct (map fp_name plan)" by (simp add: valid_plan_def)
  from vi mem obtain v where v: "map_of m ?F = Some v" and vv: "valid_value fp v"
    by (auto simp: valid_instance_def list_all_iff split: option.splits)
  have run: "UnmarshalVT_sem plan (MarshalVT_sem plan m) (fresh plan) = (None, ?m')"
    unfolding MarshalVT_sem_concat by (rule UnmarshalVT_sem_encoded [OF vp subset_refl vi])
  have fr: "map_of (fresh plan) ?F = Some (zero_of fp)"
    by (rule map_of_fresh [OF mem dn])
  have at: "map_of ?m' ?F = map_of (store m (fresh plan) fp) ?F"
    by (rule store_at [OF mem dn])
  have cat: "MarshalVT_sem plan m = MarshalVT_sem before m @ encode_field fp m @ MarshalVT_sem after m"
    by (simp add: MarshalVT_sem_concat pl)
  have imp: "MarshalVT_sem plan m = MarshalVT_sem before m @ MarshalVT_sem after m
          \<and> map_of ?m' ?F = Some (zero_of fp)"
    if "fp_presence fp = Implicit" "map_of m ?F = Some (zero_of fp)"
    using that cat at fr emitted_zero_of [of fp]
    by (simp add: encode_field_def store_def)
  have ptr: "MarshalVT_sem plan m
              = MarshalVT_sem before m @ tag_bytes fp @ payload_bytes (fp_kind fp) x
                  @ MarshalVT_sem after m
          \<and> tag_bytes fp \<noteq> []
          \<and> map_of ?m' ?F = Some (VPointer (Some x))
          \<and> VPointer (Some x) \<noteq> zero_of fp"
    if e: "fp_presence fp = Explicit" and x: "map_of m ?F = Some (VPointer (Some x))" for x
  proof -
    from x v have vx: "v = VPointer (Some x)" by simp
    with vv e have nb: "fp_kind fp \<noteq> BytesKind" and px: "valid_payload fp x"
      by (auto simp: valid_value_def split: if_splits)
    from px nb have ad: "as_decoded x = x" by (cases x) auto
    have "encode_field fp m = tag_bytes fp @ payload_bytes (fp_kind fp) x"
      using x e by (simp add: encode_field_def)
    moreover have "map_of (store m (fresh plan) fp) ?F = Some (VPointer (Some x))"
      using x e nb ad by (simp add: store_def assign_def update_conv')
    moreover have "VPointer (Some x) \<noteq> zero_of fp"
      using e nb by (simp add: zero_of_def)
    ultimately show ?thesis using cat at tag_bytes_nonempty by simp
  qed
  have byt: "MarshalVT_sem plan m
              = MarshalVT_sem before m @ tag_bytes fp @ encode_varint n @ take n b
                  @ MarshalVT_sem after m
          \<and> map_of ?m' ?F = Some (VBytes (Slice (take n b) n))
          \<and> VBytes (Slice (take n b) n) \<noteq> zero_of fp"
    if e: "fp_presence fp = Explicit" and x: "map_of m ?F = Some (VBytes (Slice b n))" for b n
  proof -
    from x v have vx: "v = VBytes (Slice b n)" by simp
    with vv e have k: "fp_kind fp = BytesKind"
      by (auto simp: valid_value_def split: if_splits)
    have "encode_field fp m = tag_bytes fp @ encode_varint n @ take n b"
      using x e k by (simp add: encode_field_def)
    moreover have "map_of (store m (fresh plan) fp) ?F = Some (VBytes (Slice (take n b) n))"
      using x e k by (simp add: store_def assign_def update_conv')
    moreover have "VBytes (Slice (take n b) n) \<noteq> zero_of fp"
      using k by (simp add: zero_of_def)
    ultimately show ?thesis using cat at by simp
  qed
  from run fr imp ptr byt show ?thesis by blast
qed

text \<open>
  The theorem at the six fields of the presence tests. With implicit presence the
  instance with every field zero encodes to nothing and decodes to itself. With explicit
  presence the instance whose \<open>Units\<close> and \<open>Amount\<close> point to zero encodes to the
  text field, then the tag 16 and the varint 0, then the tag 49 and eight zero bytes,
  and decodes to itself: \<open>Units\<close> points to zero again, \<open>Scale\<close> is still absent.
\<close>

theorem presence_decides_zero_on_the_wire_witness:
  "MarshalVT_sem (presence_plan Implicit) all_zero = []
   \<and> UnmarshalVT_sem (presence_plan Implicit) [] (fresh (presence_plan Implicit)) = (None, all_zero)
   \<and> MarshalVT_sem (presence_plan Explicit) zero_units
       = [10, 3, 69, 85, 82, 16, 0, 49, 0, 0, 0, 0, 0, 0, 0, 0]
   \<and> UnmarshalVT_sem (presence_plan Explicit) [10, 3, 69, 85, 82, 16, 0, 49, 0, 0, 0, 0, 0, 0, 0, 0]
         (fresh (presence_plan Explicit))
       = (None, zero_units)
   \<and> map_of zero_units ''Units'' = Some (VPointer (Some (VScalar 0)))
   \<and> map_of zero_units ''Scale'' = Some (VPointer None)
   \<and> map_of (fresh (presence_plan Explicit)) ''Units'' = Some (VPointer None)"
proof -
  let ?cc = "\<lambda>pr. \<lparr>fp_name = ''CurrencyCode'', fp_number = 1, fp_kind = StringKind,
                    fp_presence = pr, fp_strict = True\<rparr>"
  let ?units = "\<lambda>pr. \<lparr>fp_name = ''Units'', fp_number = 2, fp_kind = Int64Kind,
                       fp_presence = pr, fp_strict = False\<rparr>"
  let ?rest = "\<lambda>pr. tl (tl (presence_plan pr))"
  have sp: "presence_plan pr = [?cc pr] @ ?units pr # ?rest pr" for pr
    by (simp add: presence_plan_def)
  have r1: "UnmarshalVT_sem (presence_plan Implicit) (MarshalVT_sem (presence_plan Implicit) all_zero)
              (fresh (presence_plan Implicit)) = (None, all_zero)"
    unfolding MarshalVT_sem_concat
      UnmarshalVT_sem_encoded [OF presence_plan_valid subset_refl all_zero_valid]
    by (simp add: presence_plan_def all_zero_def store_def fresh_def zero_of_def)
  have r2: "UnmarshalVT_sem (presence_plan Explicit) (MarshalVT_sem (presence_plan Explicit) zero_units)
              (fresh (presence_plan Explicit)) = (None, zero_units)"
    unfolding MarshalVT_sem_concat
      UnmarshalVT_sem_encoded [OF presence_plan_valid subset_refl zero_units_valid]
    by (simp add: presence_plan_def zero_units_def store_def fresh_def zero_of_def assign_def)
  show ?thesis
    using presence_decides_zero_on_the_wire [OF presence_plan_valid all_zero_valid sp]
      presence_decides_zero_on_the_wire [OF presence_plan_valid zero_units_valid sp]
      r1 r2
    by (simp add: all_zero_bytes zero_units_bytes)
       (simp add: zero_units_def presence_plan_def fresh_def zero_of_def)
qed

section \<open>The codecs reset before they unmarshal\<close>

text \<open>
  C4. Both codecs reset the target with \<open>ResetVT\<close> when it has one. The generated
  \<open>ResetVT\<close> puts the truncated slice of a bytes field back after \<open>m.Reset()\<close>,
  and for an \<open>optional bytes\<close> field a slice that is not \<open>nil\<close> means the field is
  set. So unmarshalling an empty input into a \<open>Blob\<close> whose field held three bytes
  leaves the field set and empty, and the message then encodes to the bytes 10, 0;
  unmarshalling the same input into a new \<open>Blob\<close> leaves the field absent, and the
  message encodes to nothing. The result depends on what the target held before.
\<close>

theorem codec_unmarshal_keeps_presence_of_bytes:
  "grpc_Unmarshal [] Blob_value (a_Blob, no_pools) = (None, (a_Blob_reset, no_pools))
   \<and> drpc_Unmarshal [] Blob_value (a_Blob, no_pools) = (Returned None, (a_Blob_reset, no_pools))
   \<and> grpc_Unmarshal [] Blob_value (new_Blob, no_pools) = (None, (new_Blob, no_pools))
   \<and> grpc_Marshal Blob_value (a_Blob_reset, no_pools) = (Some [10, 0], None)
   \<and> grpc_Marshal Blob_value (new_Blob, no_pools) = (Some [], None)"
proof -
  have vt: "vtprotoMessage Blob_value"
    by (simp add: vtprotoMessage_def Blob_value_def generated_message_def)
  have r1: "reset_before_unmarshal Blob_value (a_Blob, no_pools) = (a_Blob_reset, no_pools)"
    by (simp add: reset_before_unmarshal_def Blob_value_def generated_message_def Blob_decls_eq
          call_ResetVT_def ResetVT_sem_def run_body_def a_Blob_def a_Blob_reset_def field_def
          set_field_def zero_fields_def)
  have r2: "reset_before_unmarshal Blob_value (new_Blob, no_pools) = (new_Blob, no_pools)"
    by (simp add: reset_before_unmarshal_def Blob_value_def generated_message_def Blob_decls_eq
          call_ResetVT_def ResetVT_sem_def run_body_def new_Blob_def fresh_def zero_of_def
          Blob_Data_def field_def set_field_def zero_fields_def)
  have u: "the (UnmarshalVT Blob_value) [] (i, p) = (None, (i, p))" for i p
    by (cases i) (simp add: Blob_value_def generated_message_def UnmarshalVT_sem_Nil)
  have m1: "the (MarshalVT Blob_value) (a_Blob_reset, no_pools) = (Some [10, 0], None)"
    by (simp add: Blob_value_def generated_message_def MarshalVT_sem_def encode_field_def
          a_Blob_reset_def Blob_Data_def tag_bytes_def encode_varint.simps)
  have m2: "the (MarshalVT Blob_value) (new_Blob, no_pools) = (Some [], None)"
    by (simp add: Blob_value_def generated_message_def MarshalVT_sem_def encode_field_def
          new_Blob_def fresh_def zero_of_def Blob_Data_def)
  show ?thesis
    by (simp add: grpc_Unmarshal_def drpc_Unmarshal_def grpc_Marshal_def vt r1 r2 u m1 m2)
qed

end
